theory Spec2Isabelle
  imports Main "HOL-Library.Word"
begin

unbundle bit_operations_syntax

section \<open>Data model\<close>

text \<open>
  The three programs (\<^verbatim>\<open>Image_cropping.cpp\<close>, \<^verbatim>\<open>Quantization_Resolution.cpp\<close>,
  \<^verbatim>\<open>flip_horizontally.cpp\<close>) work on \<^verbatim>\<open>vector<uint8_t>\<close> buffers that are indexed
  with \<^verbatim>\<open>int\<close> values. A buffer is a list of 8-bit words. An \<^verbatim>\<open>int\<close> is a mathematical
  integer between \<open>- 2 ^ 31\<close> and \<open>2 ^ 31 - 1\<close> (\<open>is_int\<close>); every result of the
  program's \<^verbatim>\<open>int\<close> arithmetic is checked against this range, and a result outside of it
  ends the run in \<open>SignedOverflow\<close> (signed overflow is undefined in C++).

  Everything that ends a run without a result is a value of \<open>error\<close>. The first five
  constructors are the error names of the specification; of these the programs have
  an exit for \<open>FormatError\<close> (\<^verbatim>\<open>"Input file is not a BMP file."\<close>),
  \<open>UnsupportedFormatError\<close> (\<^verbatim>\<open>"Only supports 24-bit or 32-bit uncompressed BMP."\<close>) and
  \<open>BoundsError\<close> (\<^verbatim>\<open>"Cropping area exceeds image bounds."\<close>). The remaining constructors
  are the ways in which the C++ leaves defined behaviour or aborts: an integer division by
  zero, an access outside a vector, a vector of negative size (the conversion to
  \<^verbatim>\<open>size_t\<close> makes the constructor throw), a shift by a count outside the width of
  \<^verbatim>\<open>int\<close>, and an \<^verbatim>\<open>int\<close> result outside the range of \<^verbatim>\<open>int\<close>.
\<close>

type_synonym u8 = "8 word"

datatype error =
    FormatError
  | UnsupportedFormatError
  | TruncatedDataError
  | BoundsError
  | InvalidParameterError
  | DivisionByZero
  | OutOfRange
  | AllocationFailure
  | ShiftOutOfRange
  | SignedOverflow

text \<open>The values of a 32-bit \<^verbatim>\<open>int\<close>.\<close>

definition is_int :: "int \<Rightarrow> bool" where
  "is_int v \<longleftrightarrow> - 2147483648 \<le> v \<and> v \<le> 2147483647"

text \<open>An index \<open>i\<close> of type \<^verbatim>\<open>int\<close> designates an element of the vector \<open>v\<close>.\<close>

definition in_range :: "u8 list \<Rightarrow> int \<Rightarrow> bool" where
  "in_range v i \<longleftrightarrow> 0 \<le> i \<and> i < int (length v)"

text \<open>
  \<^verbatim>\<open>&v[i]\<close>: the address of the element at \<open>i\<close> is taken and nothing is read yet; the
  offset has to lie in the vector or at its end.
\<close>

definition address_ok :: "u8 list \<Rightarrow> int \<Rightarrow> bool" where
  "address_ok v i \<longleftrightarrow> 0 \<le> i \<and> i \<le> int (length v)"

text \<open>
  Division of \<^verbatim>\<open>int\<close> values in C++ truncates towards zero.
\<close>

definition c_div :: "int \<Rightarrow> int \<Rightarrow> int" where
  "c_div a b = sgn a * sgn b * (\<bar>a\<bar> div \<bar>b\<bar>)"

text \<open>The row stride \<^verbatim>\<open>((width * bytesPerPixel + 3) & (~3))\<close>.\<close>

definition rowStride :: "int \<Rightarrow> int \<Rightarrow> int" where
  "rowStride width bytesPerPixel = (width * bytesPerPixel + 3) AND (NOT 3)"

section \<open>Quantization (\<^verbatim>\<open>Quantization_Resolution.cpp\<close>)\<close>

text \<open>
  The assignment \<^verbatim>\<open>colorValue = (colorValue / factor) * factor\<close>: the byte is promoted to
  \<^verbatim>\<open>int\<close>, divided and multiplied there, and converted back to \<^verbatim>\<open>uint8_t\<close>.
\<close>

definition quantizeValue :: "int \<Rightarrow> u8 \<Rightarrow> u8" where
  "quantizeValue factor colorValue = word_of_int (c_div (uint colorValue) factor * factor)"

text \<open>
  The innermost loop, over \<^verbatim>\<open>byte\<close>; \<open>row\<close> is the offset \<^verbatim>\<open>y * rowSize\<close> of the row, and
  \<^verbatim>\<open>row[x * bytesPerPixel + byte]\<close> is the element at that offset plus the \<^verbatim>\<open>int\<close> index.
\<close>

function quantizeBytes :: "u8 list \<Rightarrow> int \<Rightarrow> int \<Rightarrow> int \<Rightarrow> int \<Rightarrow> int \<Rightarrow> error + u8 list" where
  "quantizeBytes pixelData row x bytesPerPixel factor byte =
     (if byte < 3 then
        (if \<not> list_all is_int [x * bytesPerPixel, x * bytesPerPixel + byte] then Inl SignedOverflow
         else
           let i = row + x * bytesPerPixel + byte in
           if \<not> in_range pixelData i then Inl OutOfRange
           else if factor = 0 then Inl DivisionByZero
           else quantizeBytes (pixelData[nat i := quantizeValue factor (pixelData ! nat i)])
                  row x bytesPerPixel factor (byte + 1))
      else Inr pixelData)"
  by pat_completeness auto
termination
  by (relation "measure (\<lambda>(pixelData, row, x, bytesPerPixel, factor, byte). nat (3 - byte))") auto

declare quantizeBytes.simps [simp del]

text \<open>The loop over \<^verbatim>\<open>x\<close>.\<close>

function quantizeRow :: "u8 list \<Rightarrow> int \<Rightarrow> int \<Rightarrow> int \<Rightarrow> int \<Rightarrow> int \<Rightarrow> error + u8 list" where
  "quantizeRow pixelData row width bytesPerPixel factor x =
     (if x < width then
        (case quantizeBytes pixelData row x bytesPerPixel factor 0 of
           Inl e \<Rightarrow> Inl e
         | Inr pixelData' \<Rightarrow> quantizeRow pixelData' row width bytesPerPixel factor (x + 1))
      else Inr pixelData)"
  by pat_completeness auto
termination
  by (relation "measure (\<lambda>(pixelData, row, width, bytesPerPixel, factor, x). nat (width - x))") auto

declare quantizeRow.simps [simp del]

text \<open>The loop over \<^verbatim>\<open>y\<close>, with \<^verbatim>\<open>row = &pixelData[y * rowSize]\<close>.\<close>

function quantizeRows :: "u8 list \<Rightarrow> int \<Rightarrow> int \<Rightarrow> int \<Rightarrow> int \<Rightarrow> int \<Rightarrow> int \<Rightarrow> error + u8 list" where
  "quantizeRows pixelData bytesPerPixel width height rowSize factor y =
     (if y < height then
        (if \<not> is_int (y * rowSize) then Inl SignedOverflow
         else if \<not> address_ok pixelData (y * rowSize) then Inl OutOfRange
         else
           case quantizeRow pixelData (y * rowSize) width bytesPerPixel factor 0 of
             Inl e \<Rightarrow> Inl e
           | Inr pixelData' \<Rightarrow>
               quantizeRows pixelData' bytesPerPixel width height rowSize factor (y + 1))
      else Inr pixelData)"
  by pat_completeness auto
termination
  by (relation "measure (\<lambda>(pixelData, bytesPerPixel, width, height, rowSize, factor, y). nat (height - y))") auto

declare quantizeRows.simps [simp del]

text \<open>
  \<^verbatim>\<open>quantizePixelData\<close>: \<^verbatim>\<open>levels = 1 << quantizationBits\<close> is defined for a count from 0 to
  30; \<^verbatim>\<open>factor = maxValue / (levels - 1)\<close> is evaluated before the loops and has no guard.
\<close>

definition quantizePixelData :: "u8 list \<Rightarrow> int \<Rightarrow> int \<Rightarrow> int \<Rightarrow> int \<Rightarrow> int \<Rightarrow> error + u8 list" where
  "quantizePixelData pixelData bytesPerPixel width height rowSize quantizationBits =
     (if quantizationBits < 0 \<or> 31 \<le> quantizationBits then Inl ShiftOutOfRange
      else
        let levels = (2 :: int) ^ nat quantizationBits;
            maxValue = 255
        in if levels - 1 = 0 then Inl DivisionByZero
           else
             let factor = c_div maxValue (levels - 1)
             in quantizeRows pixelData bytesPerPixel width height rowSize factor 0)"

section \<open>Horizontal flip (\<^verbatim>\<open>flip_horizontally.cpp\<close>)\<close>

text \<open>\<^verbatim>\<open>swap(row[a], row[b])\<close> on the elements at the offsets \<open>a\<close> and \<open>b\<close> of the vector.\<close>

definition swapAt :: "u8 list \<Rightarrow> int \<Rightarrow> int \<Rightarrow> u8 list" where
  "swapAt v a b = (let tmp = v ! nat a in (v[nat a := v ! nat b])[nat b := tmp])"

text \<open>The innermost loop, over \<^verbatim>\<open>byte\<close>; \<open>row\<close> is the offset \<^verbatim>\<open>y * rowSize\<close> of the row.\<close>

function flipBytes :: "u8 list \<Rightarrow> int \<Rightarrow> int \<Rightarrow> int \<Rightarrow> int \<Rightarrow> int \<Rightarrow> error + u8 list" where
  "flipBytes pixelData row width x bytesPerPixel byte =
     (if byte < bytesPerPixel then
        (if \<not> list_all is_int
                 [x * bytesPerPixel, x * bytesPerPixel + byte,
                  width - x, width - x - 1, (width - x - 1) * bytesPerPixel,
                  (width - x - 1) * bytesPerPixel + byte]
         then Inl SignedOverflow
         else
           let a = row + x * bytesPerPixel + byte;
               b = row + (width - x - 1) * bytesPerPixel + byte
           in if \<not> in_range pixelData a \<or> \<not> in_range pixelData b then Inl OutOfRange
              else flipBytes (swapAt pixelData a b) row width x bytesPerPixel (byte + 1))
      else Inr pixelData)"
  by pat_completeness auto
termination
  by (relation "measure (\<lambda>(pixelData, row, width, x, bytesPerPixel, byte). nat (bytesPerPixel - byte))") auto

declare flipBytes.simps [simp del]

text \<open>The loop over \<^verbatim>\<open>x\<close>, up to \<^verbatim>\<open>width / 2\<close>.\<close>

function flipRow :: "u8 list \<Rightarrow> int \<Rightarrow> int \<Rightarrow> int \<Rightarrow> int \<Rightarrow> error + u8 list" where
  "flipRow pixelData row width bytesPerPixel x =
     (if x < c_div width 2 then
        (case flipBytes pixelData row width x bytesPerPixel 0 of
           Inl e \<Rightarrow> Inl e
         | Inr pixelData' \<Rightarrow> flipRow pixelData' row width bytesPerPixel (x + 1))
      else Inr pixelData)"
  by pat_completeness auto
termination
  by (relation "measure (\<lambda>(pixelData, row, width, bytesPerPixel, x). nat (c_div width 2 - x))") auto

declare flipRow.simps [simp del]

text \<open>The loop over \<^verbatim>\<open>y\<close>, with \<^verbatim>\<open>row = &pixelData[y * rowSize]\<close>.\<close>

function flipRows :: "u8 list \<Rightarrow> int \<Rightarrow> int \<Rightarrow> int \<Rightarrow> int \<Rightarrow> int \<Rightarrow> error + u8 list" where
  "flipRows pixelData width height rowSize bytesPerPixel y =
     (if y < height then
        (if \<not> is_int (y * rowSize) then Inl SignedOverflow
         else if \<not> address_ok pixelData (y * rowSize) then Inl OutOfRange
         else
           case flipRow pixelData (y * rowSize) width bytesPerPixel 0 of
             Inl e \<Rightarrow> Inl e
           | Inr pixelData' \<Rightarrow> flipRows pixelData' width height rowSize bytesPerPixel (y + 1))
      else Inr pixelData)"
  by pat_completeness auto
termination
  by (relation "measure (\<lambda>(pixelData, width, height, rowSize, bytesPerPixel, y). nat (height - y))") auto

declare flipRows.simps [simp del]

definition flipHorizontally :: "u8 list \<Rightarrow> int \<Rightarrow> int \<Rightarrow> int \<Rightarrow> int \<Rightarrow> error + u8 list" where
  "flipHorizontally pixelData width height rowSize bytesPerPixel =
     flipRows pixelData width height rowSize bytesPerPixel 0"

section \<open>Cropping (\<^verbatim>\<open>Image_cropping.cpp\<close>)\<close>

text \<open>
  \<^verbatim>\<open>vector::resize\<close> keeps the elements that fit and appends zero bytes; a negative
  \<^verbatim>\<open>int\<close> size becomes a \<^verbatim>\<open>size_t\<close> beyond \<^verbatim>\<open>max_size()\<close>, and the call throws.
\<close>

definition resize :: "u8 list \<Rightarrow> int \<Rightarrow> error + u8 list" where
  "resize v n =
     (if n < 0 then Inl AllocationFailure
      else Inr (take (nat n) v @ replicate (nat n - length v) 0))"

text \<open>
  \<^verbatim>\<open>memcpy(&dest[destOffset], &src[srcOffset], n)\<close>: \<open>n\<close> bytes of \<open>src\<close> from \<open>srcOffset\<close>
  replace the bytes of \<open>dest\<close> from \<open>destOffset\<close>; both ranges have to lie inside their
  vectors (a negative \<open>n\<close> is a huge \<^verbatim>\<open>size_t\<close>).
\<close>

definition memcpy :: "u8 list \<Rightarrow> int \<Rightarrow> u8 list \<Rightarrow> int \<Rightarrow> int \<Rightarrow> error + u8 list" where
  "memcpy dest destOffset src srcOffset n =
     (if n < 0 \<or> destOffset < 0 \<or> srcOffset < 0
         \<or> int (length dest) < destOffset + n \<or> int (length src) < srcOffset + n
      then Inl OutOfRange
      else Inr (take (nat destOffset) dest
                @ take (nat n) (drop (nat srcOffset) src)
                @ drop (nat (destOffset + n)) dest))"

text \<open>The loop over \<^verbatim>\<open>j\<close> of \<^verbatim>\<open>cropImage\<close>.\<close>

function cropRows ::
  "u8 list \<Rightarrow> u8 list \<Rightarrow> int \<Rightarrow> int \<Rightarrow> int \<Rightarrow> int \<Rightarrow> int \<Rightarrow> int \<Rightarrow> int \<Rightarrow> int \<Rightarrow> error + u8 list" where
  "cropRows inputPixelData croppedPixelData bytesPerPixel rowSize x y cropWidth cropHeight croppedRowSize j =
     (if j < cropHeight then
        (if \<not> list_all is_int
                 [y + j, (y + j) * rowSize, x * bytesPerPixel,
                  (y + j) * rowSize + x * bytesPerPixel,
                  j * croppedRowSize, cropWidth * bytesPerPixel]
         then Inl SignedOverflow
         else
           let srcY = y + j;
               srcOffset = srcY * rowSize + x * bytesPerPixel;
               destOffset = j * croppedRowSize
           in case memcpy croppedPixelData destOffset inputPixelData srcOffset
                     (cropWidth * bytesPerPixel) of
                Inl e \<Rightarrow> Inl e
              | Inr croppedPixelData' \<Rightarrow>
                  cropRows inputPixelData croppedPixelData' bytesPerPixel rowSize x y
                    cropWidth cropHeight croppedRowSize (j + 1))
      else Inr croppedPixelData)"
  by pat_completeness auto
termination
  by (relation "measure (\<lambda>(inputPixelData, croppedPixelData, bytesPerPixel, rowSize, x, y,
        cropWidth, cropHeight, croppedRowSize, j). nat (cropHeight - j))") auto

declare cropRows.simps [simp del]

text \<open>
  \<^verbatim>\<open>cropImage\<close>; the result is the new content of \<^verbatim>\<open>croppedPixelData\<close>. The parameters
  \<^verbatim>\<open>originalWidth\<close> and \<^verbatim>\<open>originalHeight\<close> are not used by the function.
\<close>

definition cropImage ::
  "u8 list \<Rightarrow> u8 list \<Rightarrow> int \<Rightarrow> int \<Rightarrow> int \<Rightarrow> int \<Rightarrow> int \<Rightarrow> int \<Rightarrow> int \<Rightarrow> int \<Rightarrow> error + u8 list" where
  "cropImage inputPixelData croppedPixelData originalWidth originalHeight bytesPerPixel rowSize
       x y cropWidth cropHeight =
     (if \<not> list_all is_int [cropWidth * bytesPerPixel, cropWidth * bytesPerPixel + 3]
      then Inl SignedOverflow
      else
        let croppedRowSize = rowStride cropWidth bytesPerPixel
        in if \<not> is_int (croppedRowSize * cropHeight) then Inl SignedOverflow
           else
             case resize croppedPixelData (croppedRowSize * cropHeight) of
               Inl e \<Rightarrow> Inl e
             | Inr resized \<Rightarrow>
                 cropRows inputPixelData resized bytesPerPixel rowSize x y
                   cropWidth cropHeight croppedRowSize 0)"

section \<open>Headers and files\<close>

text \<open>
  The two packed structures. The programs fill them by reading 14 and 40 bytes of the file
  into the memory of the structure and write them back the same way, so a field is the
  little-endian value of its bytes (the programs assume a little-endian host). The fields
  \<^verbatim>\<open>biWidth\<close> and \<^verbatim>\<open>biHeight\<close> are \<^verbatim>\<open>int32_t\<close> in two of the programs and
  \<^verbatim>\<open>uint32_t\<close> in \<^verbatim>\<open>Image_cropping.cpp\<close>; every program copies them to an \<^verbatim>\<open>int\<close>, which
  is the signed value of the 32 bits in both cases.
\<close>

type_synonym u16 = "16 word"
type_synonym u32 = "32 word"

record BMPFileHeader =
  bfType :: u16
  bfSize :: u32
  bfReserved1 :: u16
  bfReserved2 :: u16
  bfOffBits :: u32

record BMPInfoHeader =
  biSize :: u32
  biWidth :: u32
  biHeight :: u32
  biPlanes :: u16
  biBitCount :: u16
  biCompression :: u32
  biSizeImage :: u32
  biXPelsPerMeter :: u32
  biYPelsPerMeter :: u32
  biClrUsed :: u32
  biClrImportant :: u32

definition le16 :: "u8 list \<Rightarrow> nat \<Rightarrow> u16" where
  "le16 bs k = ucast (bs ! k) OR push_bit 8 (ucast (bs ! (k + 1)))"

definition le32 :: "u8 list \<Rightarrow> nat \<Rightarrow> u32" where
  "le32 bs k = ucast (bs ! k) OR push_bit 8 (ucast (bs ! (k + 1)))
                 OR push_bit 16 (ucast (bs ! (k + 2))) OR push_bit 24 (ucast (bs ! (k + 3)))"

definition bytes16 :: "u16 \<Rightarrow> u8 list" where
  "bytes16 w = [ucast w, ucast (drop_bit 8 w)]"

definition bytes32 :: "u32 \<Rightarrow> u8 list" where
  "bytes32 w = [ucast w, ucast (drop_bit 8 w), ucast (drop_bit 16 w), ucast (drop_bit 24 w)]"

text \<open>The fields of the structures, read from their 54 bytes of memory.\<close>

definition readFileHeader :: "u8 list \<Rightarrow> BMPFileHeader" where
  "readFileHeader bs =
     \<lparr>bfType = le16 bs 0, bfSize = le32 bs 2, bfReserved1 = le16 bs 6,
      bfReserved2 = le16 bs 8, bfOffBits = le32 bs 10\<rparr>"

definition readInfoHeader :: "u8 list \<Rightarrow> BMPInfoHeader" where
  "readInfoHeader bs =
     \<lparr>biSize = le32 bs 14, biWidth = le32 bs 18, biHeight = le32 bs 22,
      biPlanes = le16 bs 26, biBitCount = le16 bs 28, biCompression = le32 bs 30,
      biSizeImage = le32 bs 34, biXPelsPerMeter = le32 bs 38, biYPelsPerMeter = le32 bs 42,
      biClrUsed = le32 bs 46, biClrImportant = le32 bs 50\<rparr>"

definition writeFileHeader :: "BMPFileHeader \<Rightarrow> u8 list" where
  "writeFileHeader h =
     bytes16 (bfType h) @ bytes32 (bfSize h) @ bytes16 (bfReserved1 h)
     @ bytes16 (bfReserved2 h) @ bytes32 (bfOffBits h)"

definition writeInfoHeader :: "BMPInfoHeader \<Rightarrow> u8 list" where
  "writeInfoHeader h =
     bytes32 (biSize h) @ bytes32 (biWidth h) @ bytes32 (biHeight h)
     @ bytes16 (biPlanes h) @ bytes16 (biBitCount h) @ bytes32 (biCompression h)
     @ bytes32 (biSizeImage h) @ bytes32 (biXPelsPerMeter h) @ bytes32 (biYPelsPerMeter h)
     @ bytes32 (biClrUsed h) @ bytes32 (biClrImportant h)"

text \<open>
  \<^verbatim>\<open>vector<uint8_t> pixelData(n); inputFile.seekg(off); inputFile.read(pixelData.data(), n)\<close>
  on a stream in good state: the vector starts as \<open>n\<close> zero bytes, and the read stores the
  bytes that the file has from \<open>off\<close> on, at most \<open>n\<close>. The programs do not look at the
  state of the stream afterwards.
\<close>

definition readPixelData :: "u8 list \<Rightarrow> nat \<Rightarrow> nat \<Rightarrow> u8 list" where
  "readPixelData input off n =
     (let available = take n (drop off input)
      in available @ replicate (n - length available) 0)"

text \<open>
  The memory of the two structures after the two reads of 14 and 40 bytes. The structures
  are local variables without initialiser; \<open>uninit\<close> stands for the 54 bytes that their
  memory holds before the reads. A read that reaches the end of the file stores the bytes it
  got and leaves the stream in a failed state, in which every later read stores nothing; so
  the structures hold the bytes that the file has, up to 54, and behind them the old content
  of the memory.
\<close>

definition headerMemory :: "u8 list \<Rightarrow> u8 list \<Rightarrow> u8 list" where
  "headerMemory uninit input = take 54 input @ drop (length (take 54 input)) uninit"

text \<open>
  What the three \<^verbatim>\<open>main\<close> functions have in common, from the first read to
  \<^verbatim>\<open>inputFile.close()\<close>. The input file is taken to exist, and the memory to suffice for
  the vector; \<open>input\<close> is the content of the file. After a file of less than 54 bytes the
  stream has failed, and the read of the pixel data leaves the vector as it was allocated.
\<close>

record decoded =
  inFileHeader :: BMPFileHeader
  inInfoHeader :: BMPInfoHeader
  inWidth :: int
  inHeight :: int
  inBytesPerPixel :: int
  inRowSize :: int
  inPixelData :: "u8 list"

definition decode :: "u8 list \<Rightarrow> u8 list \<Rightarrow> error + decoded" where
  "decode uninit input =
     (let headers = headerMemory uninit input;
          fileHeader = readFileHeader headers
      in if bfType fileHeader \<noteq> 0x4D42 then Inl FormatError
         else
           let infoHeader = readInfoHeader headers;
               width = sint (biWidth infoHeader);
               height = sint (biHeight infoHeader);
               bitCount = uint (biBitCount infoHeader);
               bytesPerPixel = c_div bitCount 8
           in if (bitCount \<noteq> 24 \<and> bitCount \<noteq> 32) \<or> biCompression infoHeader \<noteq> 0
              then Inl UnsupportedFormatError
              else if \<not> list_all is_int [width * bytesPerPixel, width * bytesPerPixel + 3]
              then Inl SignedOverflow
              else
                let rowSize = rowStride width bytesPerPixel
                in if \<not> is_int (rowSize * height) then Inl SignedOverflow
                   else if rowSize * height < 0 then Inl AllocationFailure
                   else Inr \<lparr>inFileHeader = fileHeader, inInfoHeader = infoHeader,
                             inWidth = width, inHeight = height,
                             inBytesPerPixel = bytesPerPixel, inRowSize = rowSize,
                             inPixelData =
                               (if 54 \<le> length input
                                then readPixelData input (unat (bfOffBits fileHeader))
                                       (nat (rowSize * height))
                                else replicate (nat (rowSize * height)) 0)\<rparr>)"

text \<open>
  The three \<^verbatim>\<open>write\<close> calls at the end of every program: the two structures and the
  buffer, one after the other. The output file is taken to open.
\<close>

record bmp =
  outFileHeader :: BMPFileHeader
  outInfoHeader :: BMPInfoHeader
  outPixelData :: "u8 list"

definition encode :: "bmp \<Rightarrow> u8 list" where
  "encode out =
     writeFileHeader (outFileHeader out) @ writeInfoHeader (outInfoHeader out) @ outPixelData out"

text \<open>
  \<^verbatim>\<open>main\<close> of \<^verbatim>\<open>Image_cropping.cpp\<close> after the decoding, with the region of interest as
  parameters: the check of the bounds (the second sum is computed only when the first
  comparison is false), \<^verbatim>\<open>cropImage\<close> on an empty vector, and the new headers. The result
  is what the three \<^verbatim>\<open>write\<close> calls then put into the output file. An error is an exit
  before the output file is opened: no file is produced.
\<close>

definition cropPipeline :: "u8 list \<Rightarrow> u8 list \<Rightarrow> int \<Rightarrow> int \<Rightarrow> int \<Rightarrow> int \<Rightarrow> error + bmp" where
  "cropPipeline uninit input cropX cropY cropWidth cropHeight =
     (case decode uninit input of
        Inl e \<Rightarrow> Inl e
      | Inr d \<Rightarrow>
          if \<not> is_int (cropX + cropWidth) then Inl SignedOverflow
          else if cropX + cropWidth > inWidth d then Inl BoundsError
          else if \<not> is_int (cropY + cropHeight) then Inl SignedOverflow
          else if cropY + cropHeight > inHeight d then Inl BoundsError
          else
            (case cropImage (inPixelData d) [] (inWidth d) (inHeight d) (inBytesPerPixel d) (inRowSize d)
                    cropX cropY cropWidth cropHeight of
               Inl e \<Rightarrow> Inl e
             | Inr croppedPixelData \<Rightarrow>
                 let croppedRowSize = rowStride cropWidth (inBytesPerPixel d);
                     croppedInfoHeader = (inInfoHeader d)
                       \<lparr>biWidth := word_of_int cropWidth,
                        biHeight := word_of_int cropHeight,
                        biSizeImage := word_of_int (croppedRowSize * cropHeight)\<rparr>;
                     croppedFileHeader = (inFileHeader d)
                       \<lparr>bfSize := biSizeImage croppedInfoHeader + bfOffBits (inFileHeader d)\<rparr>
                 in Inr \<lparr>outFileHeader = croppedFileHeader,
                         outInfoHeader = croppedInfoHeader,
                         outPixelData = croppedPixelData\<rparr>))"

text \<open>
  The program itself, with the region of interest that \<^verbatim>\<open>main\<close> fixes; the result is the
  content of the output file.
\<close>

definition crop_main :: "u8 list \<Rightarrow> u8 list \<Rightarrow> error + u8 list" where
  "crop_main uninit input = map_sum id encode (cropPipeline uninit input 120 150 100 100)"


section \<open>Arithmetic of strides, offsets and quantization steps\<close>

lemma c_div_nonneg: "0 \<le> a \<Longrightarrow> 0 \<le> b \<Longrightarrow> c_div a b = a div b"
  by (cases "a = 0"; cases "b = 0") (simp_all add: c_div_def)

lemma and_not_3: "(k :: int) AND NOT 3 = 4 * (k div 4)"
proof -
  have m: "(3 :: int) = mask 2" by (simp add: mask_eq_exp_minus_1)
  have s: "Suc (Suc (n - 2)) = n" if "\<not> n < 2" for n :: nat
    using that by arith
  have "k AND NOT (mask 2) = push_bit 2 (drop_bit 2 k)"
    by (rule bit_eqI) (auto simp: bit_simps s)
  then show ?thesis
    unfolding m by (simp add: push_bit_eq_mult drop_bit_eq_div)
qed

lemma rowStride_alt: "rowStride w b = 4 * ((w * b + 3) div 4)"
  unfolding rowStride_def by (rule and_not_3)

lemma rowStride_ge: "w * b \<le> rowStride w b"
  unfolding rowStride_alt by presburger

lemma rowStride_nonneg: "0 \<le> w * b \<Longrightarrow> 0 \<le> rowStride w b"
  using rowStride_ge [of w b] by linarith

lemma div_mult_le_int: "0 < f \<Longrightarrow> (a div f) * f \<le> (a :: int)"
  using div_mult_mod_eq [of a f] pos_mod_sign [of f a] by linarith

lemma uint_word_of_int_u8: "0 \<le> a \<Longrightarrow> a < 256 \<Longrightarrow> uint (word_of_int a :: u8) = a"
  by (simp add: uint_word_of_int_eq take_bit_int_eq_self)

lemma quantizeValue_uint:
  assumes "0 < factor"
  shows "uint (quantizeValue factor v) = (uint v div factor) * factor"
proof -
  have "(uint v div factor) * factor \<le> uint v"
    using assms by (rule div_mult_le_int)
  moreover have "uint v < 256" using uint_bounded [of v] by simp
  moreover have "0 \<le> (uint v div factor) * factor"
    using assms by (simp add: pos_imp_zdiv_nonneg_iff)
  ultimately have "uint (word_of_int ((uint v div factor) * factor) :: u8) = (uint v div factor) * factor"
    by (intro uint_word_of_int_u8) linarith+
  moreover have "quantizeValue factor v = word_of_int ((uint v div factor) * factor)"
    unfolding quantizeValue_def using assms by (simp only: c_div_nonneg [of "uint v" factor, OF uint_ge_0 less_imp_le])
  ultimately show ?thesis by (simp only:)
qed

lemma quantizeValue_idem:
  assumes "0 < factor"
  shows "quantizeValue factor (quantizeValue factor v) = quantizeValue factor v"
proof -
  have "uint (quantizeValue factor (quantizeValue factor v)) = uint (quantizeValue factor v)"
    using assms by (simp add: quantizeValue_uint)
  then show ?thesis by (simp only: word_uint_eq_iff)
qed

section \<open>The loops of the quantization\<close>

lemma pix_lt:
  fixes b :: int
  assumes "col < col'" "c < b" "0 \<le> c'" "0 \<le> b"
  shows "col * b + c < col' * b + c'"
proof -
  have "(col + 1) * b \<le> col' * b"
    using assms by (intro mult_right_mono) simp_all
  then have "col * b + b \<le> col' * b" by (simp add: algebra_simps)
  with assms show ?thesis by linarith
qed

lemma pix_bound:
  fixes b :: int
  assumes "col < w" "c < b" "0 \<le> b"
  shows "col * b + c < w * b"
  using pix_lt [of col w c b 0] assms by simp

lemma pix_nonneg:
  fixes b :: int
  assumes "0 \<le> col" "0 \<le> c" "0 \<le> b"
  shows "0 \<le> col * b + c"
  using assms by simp

lemma quantizeBytes_spec:
  assumes "0 < factor" "0 \<le> byte" "0 \<le> row + x * bpp" "row + x * bpp + 3 \<le> int (length pd)"
    and "0 \<le> x * bpp" "x * bpp + 3 \<le> 2147483647"
  shows "\<exists>pd'. quantizeBytes pd row x bpp factor byte = Inr pd' \<and> length pd' = length pd \<and>
           (\<forall>i. 0 \<le> i \<and> i < int (length pd) \<longrightarrow> pd' ! nat i =
              (if row + x * bpp + byte \<le> i \<and> i < row + x * bpp + 3
               then quantizeValue factor (pd ! nat i) else pd ! nat i))"
  using assms
proof (induction pd row x bpp factor byte rule: quantizeBytes.induct)
  case (1 pd row x bpp factor byte)
  show ?case
  proof (cases "byte < 3")
    case False
    then show ?thesis
      by (auto simp add: quantizeBytes.simps [of pd row x bpp factor byte])
  next
    case True
    define k where "k = row + x * bpp + byte"
    define pd1 where "pd1 = pd[nat k := quantizeValue factor (pd ! nat k)]"
    have r: "in_range pd k"
      using True "1.prems" by (simp add: in_range_def k_def)
    have f: "factor \<noteq> 0" using "1.prems" by simp
    have g: "list_all is_int [x * bpp, x * bpp + byte]"
      using True "1.prems" by (simp add: is_int_def)
    have step: "quantizeBytes pd row x bpp factor byte = quantizeBytes pd1 row x bpp factor (byte + 1)"
      using True r f g by (simp add: quantizeBytes.simps [of pd row x bpp factor byte] k_def pd1_def Let_def)
    have "\<exists>pd'. quantizeBytes pd1 row x bpp factor (byte + 1) = Inr pd' \<and> length pd' = length pd1 \<and>
           (\<forall>i. 0 \<le> i \<and> i < int (length pd1) \<longrightarrow> pd' ! nat i =
              (if row + x * bpp + (byte + 1) \<le> i \<and> i < row + x * bpp + 3
               then quantizeValue factor (pd1 ! nat i) else pd1 ! nat i))"
      unfolding pd1_def k_def
      using True r f g "1.prems" by (intro "1.IH") (simp_all add: k_def)
    then obtain pd' where
      res: "quantizeBytes pd1 row x bpp factor (byte + 1) = Inr pd'" and
      len: "length pd' = length pd1" and
      nth: "\<And>i. 0 \<le> i \<Longrightarrow> i < int (length pd1) \<Longrightarrow> pd' ! nat i =
              (if row + x * bpp + (byte + 1) \<le> i \<and> i < row + x * bpp + 3
               then quantizeValue factor (pd1 ! nat i) else pd1 ! nat i)"
      by blast
    have l1: "length pd1 = length pd" by (simp add: pd1_def)
    have "pd' ! nat i =
              (if row + x * bpp + byte \<le> i \<and> i < row + x * bpp + 3
               then quantizeValue factor (pd ! nat i) else pd ! nat i)"
      if "0 \<le> i" "i < int (length pd)" for i
    proof -
      have k0: "0 \<le> k" using r by (simp add: in_range_def)
      have e: "nat k = nat i \<longleftrightarrow> k = i" using k0 that by (simp add: eq_nat_nat_iff)
      have p1: "pd1 ! nat i = (if k = i then quantizeValue factor (pd ! nat i) else pd ! nat i)"
        using that r e by (auto simp add: pd1_def nth_list_update in_range_def)
      show ?thesis
        using nth [of i] that l1 True by (auto simp add: p1 k_def)
    qed
    with step res len l1 show ?thesis by simp
  qed
qed

lemma quantizeRow_spec:
  assumes "0 < factor" "0 \<le> x" "3 \<le> bpp" "0 \<le> row" "row + width * bpp \<le> int (length pd)"
    and "width * bpp \<le> 2147483647"
  shows "\<exists>pd'. quantizeRow pd row width bpp factor x = Inr pd' \<and> length pd' = length pd \<and>
           (\<forall>col c. x \<le> col \<and> col < width \<and> 0 \<le> c \<and> c < 3 \<longrightarrow>
              pd' ! nat (row + col * bpp + c) = quantizeValue factor (pd ! nat (row + col * bpp + c))) \<and>
           (\<forall>i. 0 \<le> i \<and> i < int (length pd)
                \<and> (\<forall>col c. x \<le> col \<and> col < width \<and> 0 \<le> c \<and> c < 3 \<longrightarrow> i \<noteq> row + col * bpp + c)
              \<longrightarrow> pd' ! nat i = pd ! nat i)"
  using assms
proof (induction pd row width bpp factor x rule: quantizeRow.induct)
  case (1 pd row width bpp factor x)
  show ?case
  proof (cases "x < width")
    case False
    then show ?thesis
      by (auto simp add: quantizeRow.simps [of pd row width bpp factor x])
  next
    case True
    have b0: "0 \<le> bpp" using "1.prems" by simp
    have A0: "0 \<le> row + x * bpp" using "1.prems" by simp
    have xw: "x * bpp + 3 \<le> width * bpp"
      using pix_bound [of x width 2 bpp] True "1.prems" by simp
    then have A3: "row + x * bpp + 3 \<le> int (length pd)" using "1.prems" by linarith
    have xb0: "0 \<le> x * bpp" using "1.prems"(2) b0 by simp
    have xb3: "x * bpp + 3 \<le> 2147483647" using xw "1.prems"(6) by linarith
    from quantizeBytes_spec [OF "1.prems"(1) order_refl A0 A3 xb0 xb3]
    obtain pd1 where
      res1: "quantizeBytes pd row x bpp factor 0 = Inr pd1" and
      len1: "length pd1 = length pd" and
      nth1: "\<And>i. 0 \<le> i \<Longrightarrow> i < int (length pd) \<Longrightarrow> pd1 ! nat i =
              (if row + x * bpp \<le> i \<and> i < row + x * bpp + 3
               then quantizeValue factor (pd ! nat i) else pd ! nat i)"
      by auto
    have step: "quantizeRow pd row width bpp factor x = quantizeRow pd1 row width bpp factor (x + 1)"
      using True res1 by (simp add: quantizeRow.simps [of pd row width bpp factor x])
    have "\<exists>pd'. quantizeRow pd1 row width bpp factor (x + 1) = Inr pd' \<and> length pd' = length pd1 \<and>
           (\<forall>col c. x + 1 \<le> col \<and> col < width \<and> 0 \<le> c \<and> c < 3 \<longrightarrow>
              pd' ! nat (row + col * bpp + c) = quantizeValue factor (pd1 ! nat (row + col * bpp + c))) \<and>
           (\<forall>i. 0 \<le> i \<and> i < int (length pd1)
                \<and> (\<forall>col c. x + 1 \<le> col \<and> col < width \<and> 0 \<le> c \<and> c < 3 \<longrightarrow> i \<noteq> row + col * bpp + c)
              \<longrightarrow> pd' ! nat i = pd1 ! nat i)"
      using True res1 "1.prems" len1 by (intro "1.IH") simp_all
    then obtain pd' where
      res: "quantizeRow pd1 row width bpp factor (x + 1) = Inr pd'" and
      len: "length pd' = length pd1" and
      in': "\<And>col c. x + 1 \<le> col \<Longrightarrow> col < width \<Longrightarrow> 0 \<le> c \<Longrightarrow> c < 3 \<Longrightarrow>
              pd' ! nat (row + col * bpp + c) = quantizeValue factor (pd1 ! nat (row + col * bpp + c))" and
      out': "\<And>i. 0 \<le> i \<Longrightarrow> i < int (length pd1) \<Longrightarrow>
              (\<And>col c. x + 1 \<le> col \<Longrightarrow> col < width \<Longrightarrow> 0 \<le> c \<Longrightarrow> c < 3 \<Longrightarrow> i \<noteq> row + col * bpp + c)
              \<Longrightarrow> pd' ! nat i = pd1 ! nat i"
      by blast
    have rng: "0 \<le> row + col * bpp + c \<and> row + col * bpp + c < int (length pd)"
      if "x \<le> col" "col < width" "0 \<le> c" "c < 3" for col c
    proof -
      have "col * bpp + c < width * bpp"
        using pix_bound [of col width c bpp] that "1.prems" by simp
      moreover have "0 \<le> col * bpp + c"
        using that "1.prems" by (intro pix_nonneg) simp_all
      ultimately show ?thesis using "1.prems" by linarith
    qed
    have inP: "pd' ! nat (row + col * bpp + c) = quantizeValue factor (pd ! nat (row + col * bpp + c))"
      if h: "x \<le> col" "col < width" "0 \<le> c" "c < 3" for col c
    proof (cases "col = x")
      case True
      have "row + x * bpp + c \<noteq> row + col' * bpp + c'"
        if "x + 1 \<le> col'" "0 \<le> c'" for col' c'
        using pix_lt [of x col' c bpp c'] that h "1.prems" by simp
      then have "pd' ! nat (row + x * bpp + c) = pd1 ! nat (row + x * bpp + c)"
        using rng [of x c] h len1 \<open>x < width\<close> by (intro out') auto
      also have "\<dots> = quantizeValue factor (pd ! nat (row + x * bpp + c))"
        using nth1 [of "row + x * bpp + c"] rng [of x c] h \<open>x < width\<close> by simp
      finally show ?thesis using True by simp
    next
      case False
      then have c1: "x + 1 \<le> col" using h by simp
      have "row + x * bpp + 3 \<le> row + col * bpp + c"
        using pix_lt [of x col 2 bpp c] c1 h "1.prems" by simp
      then have "pd1 ! nat (row + col * bpp + c) = pd ! nat (row + col * bpp + c)"
        using nth1 [of "row + col * bpp + c"] rng [of col c] h by simp
      then show ?thesis using in' [OF c1 h(2) h(3) h(4)] by simp
    qed
    have outP: "pd' ! nat i = pd ! nat i"
      if h: "0 \<le> i" "i < int (length pd)"
        "\<And>col c. x \<le> col \<Longrightarrow> col < width \<Longrightarrow> 0 \<le> c \<Longrightarrow> c < 3 \<Longrightarrow> i \<noteq> row + col * bpp + c" for i
    proof -
      have "pd' ! nat i = pd1 ! nat i"
        using h len1 by (intro out') auto
      moreover have "\<not> (row + x * bpp \<le> i \<and> i < row + x * bpp + 3)"
      proof
        assume a: "row + x * bpp \<le> i \<and> i < row + x * bpp + 3"
        have "i \<noteq> row + x * bpp + (i - (row + x * bpp))"
          using a True by (intro h(3)) simp_all
        then show False by simp
      qed
      ultimately show ?thesis using nth1 [OF h(1) h(2)] by simp
    qed
    from step res len len1 inP outP show ?thesis by auto
  qed
qed


lemma quantizeRows_spec:
  assumes "0 < factor" "0 \<le> y" "3 \<le> bpp" "0 \<le> w" "w * bpp \<le> rs" "h * rs \<le> int (length pd)"
    and "h * rs \<le> 2147483647"
  shows "\<exists>pd'. quantizeRows pd bpp w h rs factor y = Inr pd' \<and> length pd' = length pd \<and>
           (\<forall>r col c. y \<le> r \<and> r < h \<and> 0 \<le> col \<and> col < w \<and> 0 \<le> c \<and> c < 3 \<longrightarrow>
              pd' ! nat (r * rs + col * bpp + c) = quantizeValue factor (pd ! nat (r * rs + col * bpp + c))) \<and>
           (\<forall>i. 0 \<le> i \<and> i < int (length pd)
                \<and> (\<forall>r col c. y \<le> r \<and> r < h \<and> 0 \<le> col \<and> col < w \<and> 0 \<le> c \<and> c < 3 \<longrightarrow>
                       i \<noteq> r * rs + col * bpp + c)
              \<longrightarrow> pd' ! nat i = pd ! nat i)"
  using assms
proof (induction pd bpp w h rs factor y rule: quantizeRows.induct)
  case (1 pd bpp w h rs factor y)
  show ?case
  proof (cases "y < h")
    case False
    then show ?thesis
      by (auto simp add: quantizeRows.simps [of pd bpp w h rs factor y])
  next
    case True
    have b0: "0 \<le> bpp" using "1.prems" by simp
    have rs0: "0 \<le> rs"
      using "1.prems" mult_nonneg_nonneg [of w bpp] by linarith
    have row0: "0 \<le> y * rs" using "1.prems" rs0 by simp
    have rows: "r * rs + rs \<le> int (length pd)" if "r < h" for r
    proof -
      have "(r + 1) * rs \<le> h * rs" using that rs0 by (intro mult_right_mono) simp_all
      then show ?thesis using "1.prems" by (simp add: algebra_simps)
    qed
    have rowend: "y * rs + w * bpp \<le> int (length pd)"
      using rows [OF True] "1.prems" by linarith
    have "(y + 1) * rs \<le> h * rs" using True rs0 by (intro mult_right_mono) simp_all
    then have rowmax: "y * rs + rs \<le> 2147483647"
      using "1.prems"(7) by (simp add: algebra_simps)
    have wmax: "w * bpp \<le> 2147483647" using rowmax row0 "1.prems"(5) by linarith
    have gi: "is_int (y * rs)" using rowmax row0 rs0 by (simp add: is_int_def)
    have ga: "address_ok pd (y * rs)" using row0 rows [OF True] rs0
      by (simp add: address_ok_def)
    from quantizeRow_spec [OF "1.prems"(1) order_refl "1.prems"(3) row0 rowend wmax]
    obtain pd1 where p1:
      "quantizeRow pd (y * rs) w bpp factor 0 = Inr pd1 \<and> length pd1 = length pd \<and>
           (\<forall>col c. 0 \<le> col \<and> col < w \<and> 0 \<le> c \<and> c < 3 \<longrightarrow>
              pd1 ! nat (y * rs + col * bpp + c) = quantizeValue factor (pd ! nat (y * rs + col * bpp + c))) \<and>
           (\<forall>i. 0 \<le> i \<and> i < int (length pd)
                \<and> (\<forall>col c. 0 \<le> col \<and> col < w \<and> 0 \<le> c \<and> c < 3 \<longrightarrow> i \<noteq> y * rs + col * bpp + c)
              \<longrightarrow> pd1 ! nat i = pd ! nat i)" ..
    from p1 have res1: "quantizeRow pd (y * rs) w bpp factor 0 = Inr pd1" by (elim conjE)
    from p1 have len1: "length pd1 = length pd" by (elim conjE)
    from p1 have in1': "\<forall>col c. 0 \<le> col \<and> col < w \<and> 0 \<le> c \<and> c < 3 \<longrightarrow>
              pd1 ! nat (y * rs + col * bpp + c) = quantizeValue factor (pd ! nat (y * rs + col * bpp + c))"
      by (elim conjE)
    from p1 have out1': "\<forall>i. 0 \<le> i \<and> i < int (length pd)
                \<and> (\<forall>col c. 0 \<le> col \<and> col < w \<and> 0 \<le> c \<and> c < 3 \<longrightarrow> i \<noteq> y * rs + col * bpp + c)
              \<longrightarrow> pd1 ! nat i = pd ! nat i"
      by (elim conjE)
    have in1: "pd1 ! nat (y * rs + col * bpp + c) = quantizeValue factor (pd ! nat (y * rs + col * bpp + c))"
      if "0 \<le> col" "col < w" "0 \<le> c" "c < 3" for col c
      using in1' that by simp
    have out1: "pd1 ! nat i = pd ! nat i"
      if "0 \<le> i" "i < int (length pd)"
        "\<And>col c. 0 \<le> col \<Longrightarrow> col < w \<Longrightarrow> 0 \<le> c \<Longrightarrow> c < 3 \<Longrightarrow> i \<noteq> y * rs + col * bpp + c" for i
      using out1' [rule_format, of i] that by simp
    have step: "quantizeRows pd bpp w h rs factor y = quantizeRows pd1 bpp w h rs factor (y + 1)"
      using True res1 gi ga by (simp add: quantizeRows.simps [of pd bpp w h rs factor y])
    have "\<exists>pd'. quantizeRows pd1 bpp w h rs factor (y + 1) = Inr pd' \<and> length pd' = length pd1 \<and>
           (\<forall>r col c. y + 1 \<le> r \<and> r < h \<and> 0 \<le> col \<and> col < w \<and> 0 \<le> c \<and> c < 3 \<longrightarrow>
              pd' ! nat (r * rs + col * bpp + c) = quantizeValue factor (pd1 ! nat (r * rs + col * bpp + c))) \<and>
           (\<forall>i. 0 \<le> i \<and> i < int (length pd1)
                \<and> (\<forall>r col c. y + 1 \<le> r \<and> r < h \<and> 0 \<le> col \<and> col < w \<and> 0 \<le> c \<and> c < 3 \<longrightarrow>
                       i \<noteq> r * rs + col * bpp + c)
              \<longrightarrow> pd' ! nat i = pd1 ! nat i)"
      using True res1 gi ga "1.prems" len1 by (intro "1.IH") simp_all
    then obtain pd' where p':
      "quantizeRows pd1 bpp w h rs factor (y + 1) = Inr pd' \<and> length pd' = length pd1 \<and>
           (\<forall>r col c. y + 1 \<le> r \<and> r < h \<and> 0 \<le> col \<and> col < w \<and> 0 \<le> c \<and> c < 3 \<longrightarrow>
              pd' ! nat (r * rs + col * bpp + c) = quantizeValue factor (pd1 ! nat (r * rs + col * bpp + c))) \<and>
           (\<forall>i. 0 \<le> i \<and> i < int (length pd1)
                \<and> (\<forall>r col c. y + 1 \<le> r \<and> r < h \<and> 0 \<le> col \<and> col < w \<and> 0 \<le> c \<and> c < 3 \<longrightarrow>
                       i \<noteq> r * rs + col * bpp + c)
              \<longrightarrow> pd' ! nat i = pd1 ! nat i)" ..
    from p' have res: "quantizeRows pd1 bpp w h rs factor (y + 1) = Inr pd'" by (elim conjE)
    from p' have len: "length pd' = length pd1" by (elim conjE)
    from p' have in'': "\<forall>r col c. y + 1 \<le> r \<and> r < h \<and> 0 \<le> col \<and> col < w \<and> 0 \<le> c \<and> c < 3 \<longrightarrow>
              pd' ! nat (r * rs + col * bpp + c) = quantizeValue factor (pd1 ! nat (r * rs + col * bpp + c))"
      by (elim conjE)
    from p' have out'': "\<forall>i. 0 \<le> i \<and> i < int (length pd1)
                \<and> (\<forall>r col c. y + 1 \<le> r \<and> r < h \<and> 0 \<le> col \<and> col < w \<and> 0 \<le> c \<and> c < 3 \<longrightarrow>
                       i \<noteq> r * rs + col * bpp + c)
              \<longrightarrow> pd' ! nat i = pd1 ! nat i"
      by (elim conjE)
    have in': "pd' ! nat (r * rs + col * bpp + c) = quantizeValue factor (pd1 ! nat (r * rs + col * bpp + c))"
      if "y + 1 \<le> r" "r < h" "0 \<le> col" "col < w" "0 \<le> c" "c < 3" for r col c
      using in'' that by simp
    have out': "pd' ! nat i = pd1 ! nat i"
      if "0 \<le> i" "i < int (length pd1)"
        "\<And>r col c. y + 1 \<le> r \<Longrightarrow> r < h \<Longrightarrow> 0 \<le> col \<Longrightarrow> col < w \<Longrightarrow> 0 \<le> c \<Longrightarrow> c < 3 \<Longrightarrow>
                   i \<noteq> r * rs + col * bpp + c" for i
      using out'' [rule_format, of i] that by simp
    have inrow: "0 \<le> col * bpp + c \<and> col * bpp + c < rs"
      if "0 \<le> col" "col < w" "0 \<le> c" "c < 3" for col c
      using pix_bound [of col w c bpp] pix_nonneg [of col c bpp] that "1.prems" by simp
    have rng: "0 \<le> r * rs + col * bpp + c \<and> r * rs + col * bpp + c < int (length pd)"
      if "y \<le> r" "r < h" "0 \<le> col" "col < w" "0 \<le> c" "c < 3" for r col c
    proof -
      have "0 \<le> r * rs" using that "1.prems" rs0 by simp
      then show ?thesis using inrow [of col c] rows [of r] that by linarith
    qed
    have diff: "r * rs + col * bpp + c \<noteq> r' * rs + col' * bpp + c'"
      if "r < r'" "0 \<le> col" "col < w" "0 \<le> c" "c < 3" "0 \<le> col'" "col' < w" "0 \<le> c'" "c' < 3"
      for r r' col col' c c'
      using pix_lt [of r r' "col * bpp + c" rs "col' * bpp + c'"] inrow [of col c] inrow [of col' c'] that rs0
      by simp
    have inP: "pd' ! nat (r * rs + col * bpp + c) = quantizeValue factor (pd ! nat (r * rs + col * bpp + c))"
      if h: "y \<le> r" "r < h" "0 \<le> col" "col < w" "0 \<le> c" "c < 3" for r col c
    proof (cases "r = y")
      case True
      have "pd' ! nat (y * rs + col * bpp + c) = pd1 ! nat (y * rs + col * bpp + c)"
      proof (rule out')
        show "0 \<le> y * rs + col * bpp + c" "y * rs + col * bpp + c < int (length pd1)"
          using rng [of y col c] h \<open>y < h\<close> len1 by simp_all
      next
        fix r' col' c' :: int
        assume "y + 1 \<le> r'" "r' < h" "0 \<le> col'" "col' < w" "0 \<le> c'" "c' < 3"
        then show "y * rs + col * bpp + c \<noteq> r' * rs + col' * bpp + c'"
          using diff [of y r' col c col' c'] h by simp
      qed
      then show ?thesis using in1 [of col c] h True by simp
    next
      case False
      then have r1: "y + 1 \<le> r" using h by simp
      have "pd1 ! nat (r * rs + col * bpp + c) = pd ! nat (r * rs + col * bpp + c)"
      proof (rule out1)
        show "0 \<le> r * rs + col * bpp + c" "r * rs + col * bpp + c < int (length pd)"
          using rng [of r col c] h by simp_all
      next
        fix col' c' :: int
        assume "0 \<le> col'" "col' < w" "0 \<le> c'" "c' < 3"
        then show "r * rs + col * bpp + c \<noteq> y * rs + col' * bpp + c'"
          using diff [of y r col' c' col c] h r1 by simp
      qed
      then show ?thesis using in' [OF r1 h(2-6)] by simp
    qed
    have outP: "pd' ! nat i = pd ! nat i"
      if h: "0 \<le> i" "i < int (length pd)"
        "\<forall>r col c. y \<le> r \<and> r < h \<and> 0 \<le> col \<and> col < w \<and> 0 \<le> c \<and> c < 3 \<longrightarrow>
           i \<noteq> r * rs + col * bpp + c" for i
    proof -
      have "pd' ! nat i = pd1 ! nat i"
      proof (rule out')
        show "0 \<le> i" "i < int (length pd1)" using h len1 by simp_all
      next
        fix r' col' c' :: int
        assume "y + 1 \<le> r'" "r' < h" "0 \<le> col'" "col' < w" "0 \<le> c'" "c' < 3"
        then show "i \<noteq> r' * rs + col' * bpp + c'"
          using h(3) [rule_format, of r' col' c'] by simp
      qed
      moreover have "pd1 ! nat i = pd ! nat i"
      proof (rule out1)
        show "0 \<le> i" "i < int (length pd)" using h by simp_all
      next
        fix col' c' :: int
        assume "0 \<le> col'" "col' < w" "0 \<le> c'" "c' < 3"
        then show "i \<noteq> y * rs + col' * bpp + c'"
          using h(3) [rule_format, of y col' c'] True by simp
      qed
      ultimately show ?thesis by simp
    qed
    show ?thesis
    proof (intro exI [of _ pd'] conjI allI impI)
      show "quantizeRows pd bpp w h rs factor y = Inr pd'" using step res by simp
      show "length pd' = length pd" using len len1 by simp
    next
      fix r col c :: int
      assume "y \<le> r \<and> r < h \<and> 0 \<le> col \<and> col < w \<and> 0 \<le> c \<and> c < 3"
      then show "pd' ! nat (r * rs + col * bpp + c) = quantizeValue factor (pd ! nat (r * rs + col * bpp + c))"
        using inP [of r col c] by simp
    next
      fix i
      assume "0 \<le> i \<and> i < int (length pd)
                \<and> (\<forall>r col c. y \<le> r \<and> r < h \<and> 0 \<le> col \<and> col < w \<and> 0 \<le> c \<and> c < 3 \<longrightarrow>
                       i \<noteq> r * rs + col * bpp + c)"
      then show "pd' ! nat i = pd ! nat i"
        using outP [of i] by (elim conjE)
    qed
  qed
qed

section \<open>The effect of \<^verbatim>\<open>quantizePixelData\<close>\<close>

lemma levels_bounds:
  assumes "1 \<le> bits" "bits \<le> 8"
  shows "1 \<le> (2 :: int) ^ nat bits - 1 \<and> (2 :: int) ^ nat bits - 1 \<le> 255"
proof -
  have "nat bits \<le> 8" "1 \<le> nat bits" using assms by simp_all
  then have "(2 :: int) ^ nat bits \<le> 2 ^ 8" "(2 :: int) ^ 1 \<le> 2 ^ nat bits"
    by (simp_all only: power_increasing_iff one_less_numeral_iff semiring_norm)
  then show ?thesis by simp
qed

lemma factor_pos:
  assumes "1 \<le> bits" "bits \<le> 8"
  shows "0 < c_div 255 (2 ^ nat bits - 1)"
    and "c_div 255 (2 ^ nat bits - 1) = 255 div (2 ^ nat bits - 1)"
proof -
  from levels_bounds [OF assms] have b: "1 \<le> (2 :: int) ^ nat bits - 1" "(2 :: int) ^ nat bits - 1 \<le> 255"
    by simp_all
  show e: "c_div 255 (2 ^ nat bits - 1) = 255 div (2 ^ nat bits - 1)"
    using b by (intro c_div_nonneg) simp_all
  show "0 < c_div 255 (2 ^ nat bits - 1)"
    unfolding e using b by (simp add: pos_imp_zdiv_pos_iff)
qed

lemma quantizePixelData_spec:
  assumes "1 \<le> bits" "bits \<le> 8"
    and "3 \<le> bpp" "0 \<le> w" "w * bpp \<le> rs" "h * rs \<le> int (length pd)"
    and "h * rs \<le> 2147483647"
  shows "\<exists>pd'. quantizePixelData pd bpp w h rs bits = Inr pd' \<and> length pd' = length pd \<and>
           (\<forall>r col c. 0 \<le> r \<and> r < h \<and> 0 \<le> col \<and> col < w \<and> 0 \<le> c \<and> c < 3 \<longrightarrow>
              pd' ! nat (r * rs + col * bpp + c)
                = quantizeValue (255 div (2 ^ nat bits - 1)) (pd ! nat (r * rs + col * bpp + c))) \<and>
           (\<forall>i. 0 \<le> i \<and> i < int (length pd)
                \<and> (\<forall>r col c. 0 \<le> r \<and> r < h \<and> 0 \<le> col \<and> col < w \<and> 0 \<le> c \<and> c < 3 \<longrightarrow>
                       i \<noteq> r * rs + col * bpp + c)
              \<longrightarrow> pd' ! nat i = pd ! nat i)"
proof -
  have f: "0 < c_div 255 (2 ^ nat bits - 1)" and e: "c_div 255 (2 ^ nat bits - 1) = 255 div (2 ^ nat bits - 1)"
    using factor_pos [OF assms(1,2)] by simp_all
  have l: "(2 :: int) ^ nat bits - 1 \<noteq> 0" using levels_bounds [OF assms(1,2)] by simp
  have q: "quantizePixelData pd bpp w h rs bits = quantizeRows pd bpp w h rs (c_div 255 (2 ^ nat bits - 1)) 0"
    using assms(1,2) l by (simp add: quantizePixelData_def Let_def)
  show ?thesis
    unfolding q using quantizeRows_spec [OF f order_refl assms(3-7)] unfolding e .
qed

lemma quantize_255:
  "(uint (v :: u8) div 255) * 255 = (if v = 255 then 255 else 0)"
proof (cases "v = 255")
  case True
  then show ?thesis by simp
next
  case False
  have "uint v < 256" using uint_bounded [of v] by simp
  moreover have "uint v \<noteq> 255" using False by (metis word_of_int_uint of_int_numeral)
  ultimately have "uint v < 255" by simp
  then show ?thesis using False by (simp add: div_pos_pos_trivial)
qed

section \<open>Quantization of the colour channels\<close>

text \<open>
  C1. For a bit depth from 1 to 8 and a buffer that holds \<open>height\<close> rows of \<open>rowSize\<close>
  bytes, each with room for \<open>width\<close> pixels of at least three bytes (the parameters are
  values of \<^verbatim>\<open>int\<close>, and so is the size \<open>height * rowSize\<close> of the rows),
  \<^verbatim>\<open>quantizePixelData\<close> returns a buffer of the same length in which each of the first
  three bytes \<open>v\<close> of every pixel of every row has become \<open>(v div step) * step\<close>, where
  \<open>step = 255 div (2 ^ bits - 1)\<close>. For \<open>bits = 1\<close> the byte 255 stays 255 and every
  other byte becomes 0.
\<close>

theorem quantize_channel_bytes:
  assumes "1 \<le> bits" "bits \<le> 8"
    and "3 \<le> bytesPerPixel" "0 \<le> width" "width * bytesPerPixel \<le> rowSize"
    and "height * rowSize \<le> int (length pixelData)"
    and "height * rowSize \<le> 2147483647"
    and "is_int bytesPerPixel" "is_int width" "is_int height" "is_int rowSize"
  shows "\<exists>quantized.
           quantizePixelData pixelData bytesPerPixel width height rowSize bits = Inr quantized
           \<and> length quantized = length pixelData
           \<and> (\<forall>y x byte. 0 \<le> y \<and> y < height \<and> 0 \<le> x \<and> x < width \<and> 0 \<le> byte \<and> byte < 3 \<longrightarrow>
                (let step = 255 div (2 ^ nat bits - 1);
                     v = pixelData ! nat (y * rowSize + x * bytesPerPixel + byte);
                     v' = quantized ! nat (y * rowSize + x * bytesPerPixel + byte)
                 in uint v' = (uint v div step) * step
                    \<and> (bits = 1 \<longrightarrow> v' = (if v = 255 then 255 else 0))))"
proof -
  from quantizePixelData_spec [OF assms(1-7)]
  obtain pd' where
    res: "quantizePixelData pixelData bytesPerPixel width height rowSize bits = Inr pd'" and
    len: "length pd' = length pixelData" and
    inP: "\<And>r col c. 0 \<le> r \<Longrightarrow> r < height \<Longrightarrow> 0 \<le> col \<Longrightarrow> col < width \<Longrightarrow> 0 \<le> c \<Longrightarrow> c < 3 \<Longrightarrow>
              pd' ! nat (r * rowSize + col * bytesPerPixel + c)
                = quantizeValue (255 div (2 ^ nat bits - 1)) (pixelData ! nat (r * rowSize + col * bytesPerPixel + c))"
    by blast
  have f: "0 < (255 :: int) div (2 ^ nat bits - 1)"
    using factor_pos [OF assms(1,2)] by simp
  have "uint (quantizeValue (255 div (2 ^ nat bits - 1)) v) = (uint v div (255 div (2 ^ nat bits - 1))) * (255 div (2 ^ nat bits - 1))
        \<and> (bits = 1 \<longrightarrow> quantizeValue (255 div (2 ^ nat bits - 1)) v = (if v = 255 then 255 else 0))" for v
  proof
    show u: "uint (quantizeValue (255 div (2 ^ nat bits - 1)) v) = (uint v div (255 div (2 ^ nat bits - 1))) * (255 div (2 ^ nat bits - 1))"
      using f by (rule quantizeValue_uint)
    show "bits = 1 \<longrightarrow> quantizeValue (255 div (2 ^ nat bits - 1)) v = (if v = 255 then 255 else 0)"
    proof
      assume b: "bits = 1"
      have "uint (quantizeValue 255 v) = uint (if v = 255 then 255 else 0 :: u8)"
        using u quantize_255 [of v] by (simp add: b)
      then show "quantizeValue (255 div (2 ^ nat bits - 1)) v = (if v = 255 then 255 else 0)"
        unfolding word_uint_eq_iff by (simp add: b)
    qed
  qed
  with res len inP show ?thesis by (simp add: Let_def)
qed

text \<open>
  C1, witness: two 32-bit pixels in one row, at one bit; the colour bytes 255 stay, the
  other colour bytes become 0, and the fourth byte of each pixel is as it was.
\<close>

theorem quantize_channel_bytes_witness:
  "(1 :: int) \<le> 1 \<and> (1 :: int) \<le> 8 \<and> (3 :: int) \<le> 4 \<and> (0 :: int) \<le> 2 \<and> (2 :: int) * 4 \<le> 8
   \<and> (1 :: int) * 8 \<le> int (length [10, 255, 200, 7, 255, 254, 0, 9 :: u8])
   \<and> (1 :: int) * 8 \<le> 2147483647
   \<and> is_int 4 \<and> is_int 2 \<and> is_int 1 \<and> is_int 8
   \<and> quantizePixelData [10, 255, 200, 7, 255, 254, 0, 9] 4 2 1 8 1 = Inr [0, 255, 0, 7, 255, 0, 0, 9]
   \<and> (\<exists>quantized.
           quantizePixelData [10, 255, 200, 7, 255, 254, 0, 9] 4 2 1 8 1 = Inr quantized
           \<and> length quantized = length [10, 255, 200, 7, 255, 254, 0, 9 :: u8]
           \<and> (\<forall>y x byte. 0 \<le> y \<and> y < 1 \<and> 0 \<le> x \<and> x < 2 \<and> 0 \<le> byte \<and> byte < 3 \<longrightarrow>
                (let step = 255 div (2 ^ nat 1 - 1);
                     v = [10, 255, 200, 7, 255, 254, 0, 9 :: u8] ! nat (y * 8 + x * 4 + byte);
                     v' = quantized ! nat (y * 8 + x * 4 + byte)
                 in uint v' = (uint v div step) * step
                    \<and> ((1 :: int) = 1 \<longrightarrow> v' = (if v = 255 then 255 else 0)))))"
proof -
  have h: "(1 :: int) \<le> 1" "(1 :: int) \<le> 8" "(3 :: int) \<le> 4" "(0 :: int) \<le> 2" "(2 :: int) * 4 \<le> 8"
    "(1 :: int) * 8 \<le> int (length [10, 255, 200, 7, 255, 254, 0, 9 :: u8])"
    "(1 :: int) * 8 \<le> 2147483647"
    "is_int 4" "is_int 2" "is_int 1" "is_int 8"
    by (simp_all add: is_int_def)
  have e: "quantizePixelData [10, 255, 200, 7, 255, 254, 0, 9] 4 2 1 8 1 = Inr [0, 255, 0, 7, 255, 0, 0, 9]"
    by code_simp
  from quantize_channel_bytes [OF h] h e show ?thesis by (intro conjI)
qed

section \<open>Quantization is idempotent\<close>

text \<open>
  C10. For a bit depth from 1 to 8 and a buffer as in C1 (its rows have room for their
  pixels, and the parameters and the size \<open>height * rowSize\<close> are values of \<^verbatim>\<open>int\<close>),
  quantizing the quantized buffer once more with the same bit depth returns it unchanged.
\<close>

theorem quantize_idempotent:
  assumes "1 \<le> bits" "bits \<le> 8"
    and "3 \<le> bytesPerPixel" "0 \<le> width" "width * bytesPerPixel \<le> rowSize"
    and "height * rowSize \<le> int (length pixelData)"
    and "height * rowSize \<le> 2147483647"
    and "is_int bytesPerPixel" "is_int width" "is_int height" "is_int rowSize"
  shows "\<exists>quantized.
           quantizePixelData pixelData bytesPerPixel width height rowSize bits = Inr quantized
           \<and> quantizePixelData quantized bytesPerPixel width height rowSize bits = Inr quantized"
proof -
  let ?q = "quantizeValue (255 div (2 ^ nat bits - 1))"
  let ?post = "\<lambda>pd pd'. quantizePixelData pd bytesPerPixel width height rowSize bits = Inr pd'
      \<and> length pd' = length pd
      \<and> (\<forall>r col c. 0 \<le> r \<and> r < height \<and> 0 \<le> col \<and> col < width \<and> 0 \<le> c \<and> c < 3 \<longrightarrow>
              pd' ! nat (r * rowSize + col * bytesPerPixel + c)
                = ?q (pd ! nat (r * rowSize + col * bytesPerPixel + c)))
      \<and> (\<forall>i. 0 \<le> i \<and> i < int (length pd)
                \<and> (\<forall>r col c. 0 \<le> r \<and> r < height \<and> 0 \<le> col \<and> col < width \<and> 0 \<le> c \<and> c < 3 \<longrightarrow>
                       i \<noteq> r * rowSize + col * bytesPerPixel + c)
              \<longrightarrow> pd' ! nat i = pd ! nat i)"
  from quantizePixelData_spec [OF assms(1-7)]
  obtain pd1 where p1: "?post pixelData pd1" ..
  from p1 have res1: "quantizePixelData pixelData bytesPerPixel width height rowSize bits = Inr pd1"
    by (elim conjE)
  from p1 have len1: "length pd1 = length pixelData"
    by (elim conjE)
  from p1 have in1: "\<forall>r col c. 0 \<le> r \<and> r < height \<and> 0 \<le> col \<and> col < width \<and> 0 \<le> c \<and> c < 3 \<longrightarrow>
              pd1 ! nat (r * rowSize + col * bytesPerPixel + c)
                = ?q (pixelData ! nat (r * rowSize + col * bytesPerPixel + c))"
    by (elim conjE)
  have wf1: "height * rowSize \<le> int (length pd1)" using assms len1 by simp
  from quantizePixelData_spec [OF assms(1-5) wf1 assms(7)]
  obtain pd2 where p2: "?post pd1 pd2" ..
  from p2 have res2: "quantizePixelData pd1 bytesPerPixel width height rowSize bits = Inr pd2"
    by (elim conjE)
  from p2 have len2: "length pd2 = length pd1"
    by (elim conjE)
  from p2 have in2: "\<forall>r col c. 0 \<le> r \<and> r < height \<and> 0 \<le> col \<and> col < width \<and> 0 \<le> c \<and> c < 3 \<longrightarrow>
              pd2 ! nat (r * rowSize + col * bytesPerPixel + c)
                = ?q (pd1 ! nat (r * rowSize + col * bytesPerPixel + c))"
    by (elim conjE)
  from p2 have out2: "\<forall>i. 0 \<le> i \<and> i < int (length pd1)
                \<and> (\<forall>r col c. 0 \<le> r \<and> r < height \<and> 0 \<le> col \<and> col < width \<and> 0 \<le> c \<and> c < 3 \<longrightarrow>
                       i \<noteq> r * rowSize + col * bytesPerPixel + c)
              \<longrightarrow> pd2 ! nat i = pd1 ! nat i"
    by (elim conjE)
  have f: "0 < (255 :: int) div (2 ^ nat bits - 1)"
    using factor_pos [OF assms(1,2)] by simp
  have "pd2 = pd1"
  proof (rule nth_equalityI)
    show "length pd2 = length pd1" by (rule len2)
  next
    fix n assume n: "n < length pd2"
    show "pd2 ! n = pd1 ! n"
    proof (cases "\<forall>r col c. 0 \<le> r \<and> r < height \<and> 0 \<le> col \<and> col < width \<and> 0 \<le> c \<and> c < 3 \<longrightarrow>
                       int n \<noteq> r * rowSize + col * bytesPerPixel + c")
      case False
      then obtain r col c where h: "0 \<le> r \<and> r < height \<and> 0 \<le> col \<and> col < width \<and> 0 \<le> c \<and> c < 3"
        and i: "int n = r * rowSize + col * bytesPerPixel + c" by blast
      have "pd2 ! nat (int n) = ?q (pd1 ! nat (int n))"
        unfolding i using in2 h by blast
      also have "pd1 ! nat (int n) = ?q (pixelData ! nat (int n))"
        unfolding i using in1 h by blast
      also have "?q (?q (pixelData ! nat (int n))) = ?q (pixelData ! nat (int n))"
        using f by (rule quantizeValue_idem)
      also have "?q (pixelData ! nat (int n)) = pd1 ! nat (int n)"
        unfolding i using in1 h by simp
      finally show ?thesis by simp
    next
      case True
      have "0 \<le> int n \<and> int n < int (length pd1)
                \<and> (\<forall>r col c. 0 \<le> r \<and> r < height \<and> 0 \<le> col \<and> col < width \<and> 0 \<le> c \<and> c < 3 \<longrightarrow>
                       int n \<noteq> r * rowSize + col * bytesPerPixel + c)"
        using n len2 True by simp
      then have "pd2 ! nat (int n) = pd1 ! nat (int n)"
        using out2 [rule_format, of "int n"] by simp
      then show ?thesis by simp
    qed
  qed
  with res1 res2 show ?thesis by simp
qed

text \<open>C10, witness: two 32-bit pixels in one row, at two bits.\<close>

theorem quantize_idempotent_witness:
  "(1 :: int) \<le> 2 \<and> (2 :: int) \<le> 8 \<and> (3 :: int) \<le> 4 \<and> (0 :: int) \<le> 2 \<and> (2 :: int) * 4 \<le> 8
   \<and> (1 :: int) * 8 \<le> int (length [10, 255, 200, 7, 255, 254, 0, 9 :: u8])
   \<and> (1 :: int) * 8 \<le> 2147483647
   \<and> is_int 4 \<and> is_int 2 \<and> is_int 1 \<and> is_int 8
   \<and> quantizePixelData [10, 255, 200, 7, 255, 254, 0, 9] 4 2 1 8 2 = Inr [0, 255, 170, 7, 255, 170, 0, 9]
   \<and> quantizePixelData [0, 255, 170, 7, 255, 170, 0, 9] 4 2 1 8 2 = Inr [0, 255, 170, 7, 255, 170, 0, 9]
   \<and> (\<exists>quantized.
           quantizePixelData [10, 255, 200, 7, 255, 254, 0, 9] 4 2 1 8 2 = Inr quantized
           \<and> quantizePixelData quantized 4 2 1 8 2 = Inr quantized)"
proof -
  have h: "(1 :: int) \<le> 2" "(2 :: int) \<le> 8" "(3 :: int) \<le> 4" "(0 :: int) \<le> 2" "(2 :: int) * 4 \<le> 8"
    "(1 :: int) * 8 \<le> int (length [10, 255, 200, 7, 255, 254, 0, 9 :: u8])"
    "(1 :: int) * 8 \<le> 2147483647"
    "is_int 4" "is_int 2" "is_int 1" "is_int 8"
    by (simp_all add: is_int_def)
  have e: "quantizePixelData [10, 255, 200, 7, 255, 254, 0, 9] 4 2 1 8 2 = Inr [0, 255, 170, 7, 255, 170, 0, 9]"
    "quantizePixelData [0, 255, 170, 7, 255, 170, 0, 9] 4 2 1 8 2 = Inr [0, 255, 170, 7, 255, 170, 0, 9]"
    by code_simp+
  from quantize_idempotent [OF h] h e show ?thesis by (intro conjI)
qed

section \<open>The loops of the horizontal flip\<close>

lemma swapAt_nth:
  assumes "in_range pd a" "in_range pd b" "0 \<le> i" "i < int (length pd)"
  shows "swapAt pd a b ! nat i = (if i = b then pd ! nat a else if i = a then pd ! nat b else pd ! nat i)"
proof -
  have ea: "nat a = nat i \<longleftrightarrow> a = i" and eb: "nat b = nat i \<longleftrightarrow> b = i"
    using assms by (simp_all add: in_range_def eq_nat_nat_iff)
  have la: "nat a < length pd" and lb: "nat b < length pd" and li: "nat i < length pd"
    using assms by (simp_all add: in_range_def nat_less_iff)
  show ?thesis
    using ea eb la lb li by (auto simp add: swapAt_def Let_def nth_list_update)
qed

lemma swapAt_length: "length (swapAt pd a b) = length pd"
  by (simp add: swapAt_def Let_def)

lemma flipBytes_spec:
  assumes "A = row + x * bpp" "B = row + (w - x - 1) * bpp"
    and "0 \<le> byte" "0 \<le> A" "A + bpp \<le> B" "B + bpp \<le> int (length pd)"
    and "0 \<le> x * bpp" "0 \<le> w - x - 1" "w - x \<le> 2147483647"
    and "(w - x - 1) * bpp + bpp \<le> 2147483647"
  shows "\<exists>pd'. flipBytes pd row w x bpp byte = Inr pd' \<and> length pd' = length pd \<and>
           (\<forall>i. 0 \<le> i \<and> i < int (length pd) \<longrightarrow> pd' ! nat i =
              (if A + byte \<le> i \<and> i < A + bpp then pd ! nat (i - A + B)
               else if B + byte \<le> i \<and> i < B + bpp then pd ! nat (i - B + A)
               else pd ! nat i))"
  using assms
proof (induction pd row w x bpp byte rule: flipBytes.induct)
  case (1 pd row w x bpp byte)
  note AB = "1.prems"(4-6)
  show ?case
  proof (cases "byte < bpp")
    case False
    then show ?thesis
      by (auto simp add: flipBytes.simps [of pd row w x bpp byte])
  next
    case True
    define pd1 where "pd1 = swapAt pd (A + byte) (B + byte)"
    have ra: "in_range pd (A + byte)" and rb: "in_range pd (B + byte)"
      using True "1.prems"(3) AB by (simp_all add: in_range_def)
    have l1: "length pd1 = length pd" by (simp add: pd1_def swapAt_length)
    have "x * bpp + bpp \<le> (w - x - 1) * bpp" using "1.prems"(1,2,5) by simp
    then have g: "list_all is_int
        [x * bpp, x * bpp + byte, w - x, w - x - 1, (w - x - 1) * bpp, (w - x - 1) * bpp + byte]"
      using True "1.prems"(3,7-10) by (simp add: is_int_def)
    have step: "flipBytes pd row w x bpp byte = flipBytes pd1 row w x bpp (byte + 1)"
      using True ra rb g "1.prems"(1,2)
      by (simp add: flipBytes.simps [of pd row w x bpp byte] pd1_def Let_def)
    have "\<exists>pd'. flipBytes pd1 row w x bpp (byte + 1) = Inr pd' \<and> length pd' = length pd1 \<and>
           (\<forall>i. 0 \<le> i \<and> i < int (length pd1) \<longrightarrow> pd' ! nat i =
              (if A + (byte + 1) \<le> i \<and> i < A + bpp then pd1 ! nat (i - A + B)
               else if B + (byte + 1) \<le> i \<and> i < B + bpp then pd1 ! nat (i - B + A)
               else pd1 ! nat i))"
      unfolding pd1_def
      using True ra rb g "1.prems" by (intro "1.IH" [of "A + byte" "B + byte"]) (simp_all add: swapAt_length)
    then obtain pd' where p': "flipBytes pd1 row w x bpp (byte + 1) = Inr pd' \<and> length pd' = length pd1 \<and>
           (\<forall>i. 0 \<le> i \<and> i < int (length pd1) \<longrightarrow> pd' ! nat i =
              (if A + (byte + 1) \<le> i \<and> i < A + bpp then pd1 ! nat (i - A + B)
               else if B + (byte + 1) \<le> i \<and> i < B + bpp then pd1 ! nat (i - B + A)
               else pd1 ! nat i))" ..
    from p' have res: "flipBytes pd1 row w x bpp (byte + 1) = Inr pd'" by (elim conjE)
    from p' have len: "length pd' = length pd1" by (elim conjE)
    from p' have nth': "\<forall>i. 0 \<le> i \<and> i < int (length pd1) \<longrightarrow> pd' ! nat i =
              (if A + (byte + 1) \<le> i \<and> i < A + bpp then pd1 ! nat (i - A + B)
               else if B + (byte + 1) \<le> i \<and> i < B + bpp then pd1 ! nat (i - B + A)
               else pd1 ! nat i)" by (elim conjE)
    have nth: "pd' ! nat i =
              (if A + (byte + 1) \<le> i \<and> i < A + bpp then pd1 ! nat (i - A + B)
               else if B + (byte + 1) \<le> i \<and> i < B + bpp then pd1 ! nat (i - B + A)
               else pd1 ! nat i)" if "0 \<le> i" "i < int (length pd)" for i
      using nth' [rule_format, of i] that l1 by simp
    have n1: "pd1 ! nat i = (if i = B + byte then pd ! nat (A + byte)
                             else if i = A + byte then pd ! nat (B + byte) else pd ! nat i)"
      if "0 \<le> i" "i < int (length pd)" for i
      unfolding pd1_def using ra rb that by (rule swapAt_nth)
    have fin: "pd' ! nat i =
              (if A + byte \<le> i \<and> i < A + bpp then pd ! nat (i - A + B)
               else if B + byte \<le> i \<and> i < B + bpp then pd ! nat (i - B + A)
               else pd ! nat i)" if h: "0 \<le> i" "i < int (length pd)" for i
    proof -
      consider (a) "A + (byte + 1) \<le> i \<and> i < A + bpp" | (b) "B + (byte + 1) \<le> i \<and> i < B + bpp"
        | (c) "i = A + byte" | (d) "i = B + byte"
        | (e) "\<not> (A + byte \<le> i \<and> i < A + bpp)" "\<not> (B + byte \<le> i \<and> i < B + bpp)"
        by linarith
      then show ?thesis
      proof cases
        case a
        have t: "A + byte \<le> i \<and> i < A + bpp" using a by auto
        have "pd' ! nat i = pd1 ! nat (i - A + B)" using nth [OF h] a by simp
        also have "\<dots> = pd ! nat (i - A + B)"
        proof -
          have "0 \<le> i - A + B" "i - A + B < int (length pd)" "i - A + B \<noteq> B + byte" "i - A + B \<noteq> A + byte"
            using a AB "1.prems"(3) by auto
          then show ?thesis using n1 [of "i - A + B"] by simp
        qed
        finally show ?thesis by (simp only: t if_True simp_thms)
      next
        case b
        have na: "\<not> (A + (byte + 1) \<le> i \<and> i < A + bpp)" "\<not> (A + byte \<le> i \<and> i < A + bpp)"
          and t: "B + byte \<le> i \<and> i < B + bpp"
          using b AB "1.prems"(3) by auto
        have "pd' ! nat i = pd1 ! nat (i - B + A)" using nth [OF h] b na by simp
        also have "\<dots> = pd ! nat (i - B + A)"
        proof -
          have "0 \<le> i - B + A" "i - B + A < int (length pd)" "i - B + A \<noteq> B + byte" "i - B + A \<noteq> A + byte"
            using b AB "1.prems"(3) by auto
          then show ?thesis using n1 [of "i - B + A"] by simp
        qed
        finally show ?thesis by (simp only: na t if_True if_False simp_thms)
      next
        case c
        have n: "\<not> (A + (byte + 1) \<le> i \<and> i < A + bpp)" "\<not> (B + (byte + 1) \<le> i \<and> i < B + bpp)"
          "i \<noteq> B + byte" and t: "A + byte \<le> i \<and> i < A + bpp"
          using c AB True "1.prems"(3) by auto
        have "pd' ! nat i = pd1 ! nat i" using nth [OF h] n by simp
        also have "\<dots> = pd ! nat (B + byte)" using n1 [OF h] n c by simp
        also have "B + byte = i - A + B" using c by simp
        finally show ?thesis by (simp only: t if_True simp_thms)
      next
        case d
        have n: "\<not> (A + (byte + 1) \<le> i \<and> i < A + bpp)" "\<not> (B + (byte + 1) \<le> i \<and> i < B + bpp)"
          "\<not> (A + byte \<le> i \<and> i < A + bpp)" and t: "B + byte \<le> i \<and> i < B + bpp"
          using d AB True "1.prems"(3) by auto
        have "pd' ! nat i = pd1 ! nat i" using nth [OF h] n by simp
        also have "\<dots> = pd ! nat (A + byte)" using n1 [OF h] d by simp
        also have "A + byte = i - B + A" using d by simp
        finally show ?thesis by (simp only: n t if_True if_False simp_thms)
      next
        case e
        have ne: "\<not> (A + (byte + 1) \<le> i \<and> i < A + bpp)" "\<not> (B + (byte + 1) \<le> i \<and> i < B + bpp)"
          "i \<noteq> A + byte" "i \<noteq> B + byte"
          using e True "1.prems"(3) by auto
        have "pd' ! nat i = pd1 ! nat i" using nth [OF h] ne by simp
        also have "\<dots> = pd ! nat i" using n1 [OF h] ne by simp
        finally show ?thesis by (simp only: e if_False simp_thms)
      qed
    qed
    show ?thesis
    proof (intro exI [of _ pd'] conjI allI impI)
      show "flipBytes pd row w x bpp byte = Inr pd'" using step res by simp
      show "length pd' = length pd" using len l1 by simp
    next
      fix i :: int
      assume h: "0 \<le> i \<and> i < int (length pd)"
      then show "pd' ! nat i =
              (if A + byte \<le> i \<and> i < A + bpp then pd ! nat (i - A + B)
               else if B + byte \<le> i \<and> i < B + bpp then pd ! nat (i - B + A)
               else pd ! nat i)"
        using fin [of i] by (elim conjE)
    qed
  qed
qed

lemma flipRow_spec:
  assumes "0 \<le> x" "x \<le> w div 2" "0 \<le> bpp" "0 \<le> row" "0 \<le> w"
    and "row + w * bpp \<le> int (length pd)"
    and "w \<le> 2147483647" "w * bpp \<le> 2147483647"
  shows "\<exists>pd'. flipRow pd row w bpp x = Inr pd' \<and> length pd' = length pd \<and>
           (\<forall>col c. x \<le> col \<and> col < w - x \<and> 0 \<le> c \<and> c < bpp \<longrightarrow>
              pd' ! nat (row + col * bpp + c) = pd ! nat (row + (w - col - 1) * bpp + c)) \<and>
           (\<forall>i. 0 \<le> i \<and> i < int (length pd)
                \<and> (\<forall>col c. x \<le> col \<and> col < w - x \<and> 0 \<le> c \<and> c < bpp \<longrightarrow> i \<noteq> row + col * bpp + c)
              \<longrightarrow> pd' ! nat i = pd ! nat i)"
  using assms
proof (induction pd row w bpp x rule: flipRow.induct)
  case (1 pd row w bpp x)
  have cd: "c_div w 2 = w div 2" using "1.prems" by (simp add: c_div_nonneg)
  show ?case
  proof (cases "x < w div 2")
    case False
    have r: "flipRow pd row w bpp x = Inr pd"
      using False cd by (simp add: flipRow.simps [of pd row w bpp x])
    have m: "w - col - 1 = col" if "x \<le> col" "col < w - x" for col
      using that False "1.prems"(2) by linarith
    show ?thesis
    proof (intro exI [of _ pd] conjI allI impI)
      show "flipRow pd row w bpp x = Inr pd" by (rule r)
      show "length pd = length pd" by simp
    next
      fix col c :: int
      assume "x \<le> col \<and> col < w - x \<and> 0 \<le> c \<and> c < bpp"
      then have "w - col - 1 = col" using m [of col] by simp
      then show "pd ! nat (row + col * bpp + c) = pd ! nat (row + (w - col - 1) * bpp + c)"
        by (simp only:)
    next
      fix i :: int
      show "pd ! nat i = pd ! nat i" by simp
    qed
  next
    case True
    define A where "A = row + x * bpp"
    define B where "B = row + (w - x - 1) * bpp"
    note b0 = "1.prems"(3)
    have xw: "2 * x + 2 \<le> w" using True by presburger
    have A0: "0 \<le> A" using "1.prems" by (simp add: A_def)
    have "(x + 1) * bpp \<le> (w - x - 1) * bpp"
      using xw b0 by (intro mult_right_mono) linarith+
    then have AB: "A + bpp \<le> B" by (simp add: A_def B_def algebra_simps)
    have wx: "(w - x) * bpp \<le> w * bpp"
      using "1.prems"(1) b0 by (intro mult_right_mono) linarith+
    then have Bl: "B + bpp \<le> int (length pd)"
      using "1.prems"(6) by (simp add: B_def algebra_simps)
    have g1: "0 \<le> x * bpp" using "1.prems"(1) b0 by simp
    have g2: "0 \<le> w - x - 1" using xw "1.prems"(1) by linarith
    have g3: "w - x \<le> 2147483647" using "1.prems"(1,7) by linarith
    have g4: "(w - x - 1) * bpp + bpp \<le> 2147483647"
      using wx "1.prems"(8) by (simp add: algebra_simps)
    from flipBytes_spec [OF A_def B_def order_refl A0 AB Bl g1 g2 g3 g4]
    obtain pd1 where p1: "flipBytes pd row w x bpp 0 = Inr pd1 \<and> length pd1 = length pd \<and>
           (\<forall>i. 0 \<le> i \<and> i < int (length pd) \<longrightarrow> pd1 ! nat i =
              (if A + 0 \<le> i \<and> i < A + bpp then pd ! nat (i - A + B)
               else if B + 0 \<le> i \<and> i < B + bpp then pd ! nat (i - B + A)
               else pd ! nat i))" ..
    from p1 have res1: "flipBytes pd row w x bpp 0 = Inr pd1" by (elim conjE)
    from p1 have len1: "length pd1 = length pd" by (elim conjE)
    from p1 have nth1': "\<forall>i. 0 \<le> i \<and> i < int (length pd) \<longrightarrow> pd1 ! nat i =
              (if A + 0 \<le> i \<and> i < A + bpp then pd ! nat (i - A + B)
               else if B + 0 \<le> i \<and> i < B + bpp then pd ! nat (i - B + A)
               else pd ! nat i)" by (elim conjE)
    have nth1: "pd1 ! nat i =
              (if A \<le> i \<and> i < A + bpp then pd ! nat (i - A + B)
               else if B \<le> i \<and> i < B + bpp then pd ! nat (i - B + A)
               else pd ! nat i)" if "0 \<le> i" "i < int (length pd)" for i
      using nth1' [rule_format, of i] that by simp
    have step: "flipRow pd row w bpp x = flipRow pd1 row w bpp (x + 1)"
      using True res1 cd by (simp add: flipRow.simps [of pd row w bpp x])
    have "\<exists>pd'. flipRow pd1 row w bpp (x + 1) = Inr pd' \<and> length pd' = length pd1 \<and>
           (\<forall>col c. x + 1 \<le> col \<and> col < w - (x + 1) \<and> 0 \<le> c \<and> c < bpp \<longrightarrow>
              pd' ! nat (row + col * bpp + c) = pd1 ! nat (row + (w - col - 1) * bpp + c)) \<and>
           (\<forall>i. 0 \<le> i \<and> i < int (length pd1)
                \<and> (\<forall>col c. x + 1 \<le> col \<and> col < w - (x + 1) \<and> 0 \<le> c \<and> c < bpp \<longrightarrow> i \<noteq> row + col * bpp + c)
              \<longrightarrow> pd' ! nat i = pd1 ! nat i)"
      using True res1 cd "1.prems" len1 by (intro "1.IH") simp_all
    then obtain pd' where p': "flipRow pd1 row w bpp (x + 1) = Inr pd' \<and> length pd' = length pd1 \<and>
           (\<forall>col c. x + 1 \<le> col \<and> col < w - (x + 1) \<and> 0 \<le> c \<and> c < bpp \<longrightarrow>
              pd' ! nat (row + col * bpp + c) = pd1 ! nat (row + (w - col - 1) * bpp + c)) \<and>
           (\<forall>i. 0 \<le> i \<and> i < int (length pd1)
                \<and> (\<forall>col c. x + 1 \<le> col \<and> col < w - (x + 1) \<and> 0 \<le> c \<and> c < bpp \<longrightarrow> i \<noteq> row + col * bpp + c)
              \<longrightarrow> pd' ! nat i = pd1 ! nat i)" ..
    from p' have res: "flipRow pd1 row w bpp (x + 1) = Inr pd'" by (elim conjE)
    from p' have len: "length pd' = length pd1" by (elim conjE)
    from p' have in'': "\<forall>col c. x + 1 \<le> col \<and> col < w - (x + 1) \<and> 0 \<le> c \<and> c < bpp \<longrightarrow>
              pd' ! nat (row + col * bpp + c) = pd1 ! nat (row + (w - col - 1) * bpp + c)"
      by (elim conjE)
    from p' have out'': "\<forall>i. 0 \<le> i \<and> i < int (length pd1)
                \<and> (\<forall>col c. x + 1 \<le> col \<and> col < w - (x + 1) \<and> 0 \<le> c \<and> c < bpp \<longrightarrow> i \<noteq> row + col * bpp + c)
              \<longrightarrow> pd' ! nat i = pd1 ! nat i"
      by (elim conjE)
    have in': "pd' ! nat (row + col * bpp + c) = pd1 ! nat (row + (w - col - 1) * bpp + c)"
      if "x + 1 \<le> col" "col < w - (x + 1)" "0 \<le> c" "c < bpp" for col c
      using in'' that by simp
    have out': "pd' ! nat i = pd1 ! nat i"
      if "0 \<le> i" "i < int (length pd)"
        "\<And>col c. x + 1 \<le> col \<Longrightarrow> col < w - (x + 1) \<Longrightarrow> 0 \<le> c \<Longrightarrow> c < bpp \<Longrightarrow> i \<noteq> row + col * bpp + c" for i
      using out'' [rule_format, of i] that len1 by simp
    \<comment> \<open>the bytes of a pixel inside the row\<close>
    have rng: "0 \<le> row + col * bpp + c \<and> row + col * bpp + c < int (length pd)"
      if "0 \<le> col" "col < w" "0 \<le> c" "c < bpp" for col c
    proof -
      have "col * bpp + c < w * bpp" using pix_bound [of col w c bpp] that b0 by simp
      moreover have "0 \<le> col * bpp + c" using that b0 by (intro pix_nonneg) simp_all
      ultimately show ?thesis using "1.prems" by linarith
    qed
    \<comment> \<open>pixels of different columns do not meet\<close>
    have sep: "row + col * bpp + c < row + col' * bpp + c'"
      if "col < col'" "c < bpp" "0 \<le> c'" for col col' c c'
      using pix_lt [of col col' c bpp c'] that b0 by simp
    have inner: "pd1 ! nat (row + col * bpp + c) = pd ! nat (row + col * bpp + c)"
      if h: "x + 1 \<le> col" "col < w - (x + 1)" "0 \<le> c" "c < bpp" for col c
    proof -
      have "A + bpp \<le> row + col * bpp + c"
        using sep [of x col "bpp - 1" c] h b0 by (simp add: A_def)
      moreover have "row + col * bpp + c < B"
        using sep [of col "w - x - 1" c 0] h by (simp add: B_def)
      moreover have "0 \<le> row + col * bpp + c \<and> row + col * bpp + c < int (length pd)"
        using h "1.prems"(1) by (intro rng) linarith+
      ultimately show ?thesis
        using nth1 [of "row + col * bpp + c"] b0 by simp
    qed
    have notin: "i \<noteq> row + col * bpp + c"
      if "x + 1 \<le> col" "col < w - (x + 1)" "0 \<le> c" "c < bpp"
        "(A \<le> i \<and> i < A + bpp) \<or> (B \<le> i \<and> i < B + bpp)" for i col c
    proof -
      have "A + bpp \<le> row + col * bpp + c"
        using sep [of x col "bpp - 1" c] that b0 by (simp add: A_def)
      moreover have "row + col * bpp + c < B"
        using sep [of col "w - x - 1" c 0] that by (simp add: B_def)
      ultimately show ?thesis using that(5) AB b0 by linarith
    qed
    have inP: "pd' ! nat (row + col * bpp + c) = pd ! nat (row + (w - col - 1) * bpp + c)"
      if h: "x \<le> col" "col < w - x" "0 \<le> c" "c < bpp" for col c
    proof -
      consider (l) "col = x" | (r) "col = w - x - 1" | (m) "x + 1 \<le> col" "col < w - (x + 1)"
        using h by linarith
      then show ?thesis
      proof cases
        case l
        have i: "row + col * bpp + c = A + c" using l by (simp add: A_def)
        have ir: "0 \<le> A + c" "A + c < int (length pd)" using A0 AB Bl h b0 by linarith+
        have "pd' ! nat (A + c) = pd1 ! nat (A + c)"
          using ir notin [of _ _ "A + c"] h by (intro out') auto
        also have "\<dots> = pd ! nat (A + c - A + B)"
          using nth1 [OF ir] h by simp
        also have "A + c - A + B = row + (w - col - 1) * bpp + c"
          using l by (simp add: B_def)
        finally show ?thesis using i by simp
      next
        case r
        have i: "row + col * bpp + c = B + c" using r by (simp add: B_def)
        have ir: "0 \<le> B + c" "B + c < int (length pd)" using A0 AB Bl h b0 by linarith+
        have na: "\<not> (A \<le> B + c \<and> B + c < A + bpp)" using AB h by linarith
        have "pd' ! nat (B + c) = pd1 ! nat (B + c)"
          using ir notin [of _ _ "B + c"] h by (intro out') auto
        also have "\<dots> = pd ! nat (B + c - B + A)"
          using nth1 [OF ir] h na by simp
        also have "B + c - B + A = row + (w - col - 1) * bpp + c"
          using r by (simp add: A_def)
        finally show ?thesis using i by simp
      next
        case m
        have m': "x + 1 \<le> w - col - 1" "w - col - 1 < w - (x + 1)" using m by linarith+
        have "pd' ! nat (row + col * bpp + c) = pd1 ! nat (row + (w - col - 1) * bpp + c)"
          using m h by (intro in') simp_all
        also have "\<dots> = pd ! nat (row + (w - col - 1) * bpp + c)"
          using m' h by (intro inner) simp_all
        finally show ?thesis .
      qed
    qed
    have outP: "pd' ! nat i = pd ! nat i"
      if h: "0 \<le> i" "i < int (length pd)"
        "\<forall>col c. x \<le> col \<and> col < w - x \<and> 0 \<le> c \<and> c < bpp \<longrightarrow> i \<noteq> row + col * bpp + c" for i
    proof -
      have "pd' ! nat i = pd1 ! nat i"
      proof (rule out')
        show "0 \<le> i" "i < int (length pd)" using h by simp_all
      next
        fix col c :: int
        assume "x + 1 \<le> col" "col < w - (x + 1)" "0 \<le> c" "c < bpp"
        then show "i \<noteq> row + col * bpp + c"
          using h(3) [rule_format, of col c] by simp
      qed
      moreover have "\<not> (A \<le> i \<and> i < A + bpp)"
      proof
        assume a: "A \<le> i \<and> i < A + bpp"
        have "x \<le> x \<and> x < w - x \<and> 0 \<le> i - A \<and> i - A < bpp"
          using a xw by linarith
        then have "i \<noteq> row + x * bpp + (i - A)"
          by (rule h(3) [rule_format])
        then show False by (simp add: A_def)
      qed
      moreover have "\<not> (B \<le> i \<and> i < B + bpp)"
      proof
        assume a: "B \<le> i \<and> i < B + bpp"
        have "x \<le> w - x - 1 \<and> w - x - 1 < w - x \<and> 0 \<le> i - B \<and> i - B < bpp"
          using a xw by linarith
        then have "i \<noteq> row + (w - x - 1) * bpp + (i - B)"
          by (rule h(3) [rule_format])
        then show False by (simp add: B_def)
      qed
      ultimately show ?thesis using nth1 [OF h(1) h(2)] by simp
    qed
    show ?thesis
    proof (intro exI [of _ pd'] conjI allI impI)
      show "flipRow pd row w bpp x = Inr pd'" using step res by simp
      show "length pd' = length pd" using len len1 by simp
    next
      fix col c :: int
      assume "x \<le> col \<and> col < w - x \<and> 0 \<le> c \<and> c < bpp"
      then show "pd' ! nat (row + col * bpp + c) = pd ! nat (row + (w - col - 1) * bpp + c)"
        using inP [of col c] by simp
    next
      fix i :: int
      assume "0 \<le> i \<and> i < int (length pd)
                \<and> (\<forall>col c. x \<le> col \<and> col < w - x \<and> 0 \<le> c \<and> c < bpp \<longrightarrow> i \<noteq> row + col * bpp + c)"
      then show "pd' ! nat i = pd ! nat i"
        using outP [of i] by (elim conjE)
    qed
  qed
qed

lemma flipRows_spec:
  assumes "0 \<le> y" "0 \<le> bpp" "0 \<le> w" "w * bpp \<le> rs" "h * rs \<le> int (length pd)"
    and "h * rs \<le> 2147483647" "w \<le> 2147483647"
  shows "\<exists>pd'. flipRows pd w h rs bpp y = Inr pd' \<and> length pd' = length pd \<and>
           (\<forall>r col c. y \<le> r \<and> r < h \<and> 0 \<le> col \<and> col < w \<and> 0 \<le> c \<and> c < bpp \<longrightarrow>
              pd' ! nat (r * rs + col * bpp + c) = pd ! nat (r * rs + (w - col - 1) * bpp + c)) \<and>
           (\<forall>i. 0 \<le> i \<and> i < int (length pd)
                \<and> (\<forall>r col c. y \<le> r \<and> r < h \<and> 0 \<le> col \<and> col < w \<and> 0 \<le> c \<and> c < bpp \<longrightarrow>
                       i \<noteq> r * rs + col * bpp + c)
              \<longrightarrow> pd' ! nat i = pd ! nat i)"
  using assms
proof (induction pd w h rs bpp y rule: flipRows.induct)
  case (1 pd w h rs bpp y)
  show ?case
  proof (cases "y < h")
    case False
    then show ?thesis
      by (auto simp add: flipRows.simps [of pd w h rs bpp y])
  next
    case True
    note b0 = "1.prems"(2)
    have rs0: "0 \<le> rs"
      using "1.prems" mult_nonneg_nonneg [of w bpp] by linarith
    have row0: "0 \<le> y * rs" using "1.prems" rs0 by simp
    have rows: "r * rs + rs \<le> int (length pd)" if "r < h" for r
    proof -
      have "(r + 1) * rs \<le> h * rs" using that rs0 by (intro mult_right_mono) simp_all
      then show ?thesis using "1.prems" by (simp add: algebra_simps)
    qed
    have rowend: "y * rs + w * bpp \<le> int (length pd)"
      using rows [OF True] "1.prems" by linarith
    have half: "(0 :: int) \<le> w div 2" using "1.prems"(3) by simp
    have "(y + 1) * rs \<le> h * rs" using True rs0 by (intro mult_right_mono) simp_all
    then have rowmax: "y * rs + rs \<le> 2147483647"
      using "1.prems"(6) by (simp add: algebra_simps)
    have wmax: "w * bpp \<le> 2147483647" using rowmax row0 "1.prems"(4) by linarith
    have gi: "is_int (y * rs)" using rowmax row0 rs0 by (simp add: is_int_def)
    have ga: "address_ok pd (y * rs)" using row0 rows [OF True] rs0
      by (simp add: address_ok_def)
    from flipRow_spec [OF order_refl half b0 row0 "1.prems"(3) rowend "1.prems"(7) wmax]
    obtain pd1 where p1:
      "flipRow pd (y * rs) w bpp 0 = Inr pd1 \<and> length pd1 = length pd \<and>
           (\<forall>col c. 0 \<le> col \<and> col < w - 0 \<and> 0 \<le> c \<and> c < bpp \<longrightarrow>
              pd1 ! nat (y * rs + col * bpp + c) = pd ! nat (y * rs + (w - col - 1) * bpp + c)) \<and>
           (\<forall>i. 0 \<le> i \<and> i < int (length pd)
                \<and> (\<forall>col c. 0 \<le> col \<and> col < w - 0 \<and> 0 \<le> c \<and> c < bpp \<longrightarrow> i \<noteq> y * rs + col * bpp + c)
              \<longrightarrow> pd1 ! nat i = pd ! nat i)" ..
    from p1 have res1: "flipRow pd (y * rs) w bpp 0 = Inr pd1" by (elim conjE)
    from p1 have len1: "length pd1 = length pd" by (elim conjE)
    from p1 have in1': "\<forall>col c. 0 \<le> col \<and> col < w - 0 \<and> 0 \<le> c \<and> c < bpp \<longrightarrow>
              pd1 ! nat (y * rs + col * bpp + c) = pd ! nat (y * rs + (w - col - 1) * bpp + c)"
      by (elim conjE)
    from p1 have out1': "\<forall>i. 0 \<le> i \<and> i < int (length pd)
                \<and> (\<forall>col c. 0 \<le> col \<and> col < w - 0 \<and> 0 \<le> c \<and> c < bpp \<longrightarrow> i \<noteq> y * rs + col * bpp + c)
              \<longrightarrow> pd1 ! nat i = pd ! nat i"
      by (elim conjE)
    have in1: "pd1 ! nat (y * rs + col * bpp + c) = pd ! nat (y * rs + (w - col - 1) * bpp + c)"
      if "0 \<le> col" "col < w" "0 \<le> c" "c < bpp" for col c
      using in1' that by simp
    have out1: "pd1 ! nat i = pd ! nat i"
      if "0 \<le> i" "i < int (length pd)"
        "\<And>col c. 0 \<le> col \<Longrightarrow> col < w \<Longrightarrow> 0 \<le> c \<Longrightarrow> c < bpp \<Longrightarrow> i \<noteq> y * rs + col * bpp + c" for i
      using out1' [rule_format, of i] that by simp
    have step: "flipRows pd w h rs bpp y = flipRows pd1 w h rs bpp (y + 1)"
      using True res1 gi ga by (simp add: flipRows.simps [of pd w h rs bpp y])
    have "\<exists>pd'. flipRows pd1 w h rs bpp (y + 1) = Inr pd' \<and> length pd' = length pd1 \<and>
           (\<forall>r col c. y + 1 \<le> r \<and> r < h \<and> 0 \<le> col \<and> col < w \<and> 0 \<le> c \<and> c < bpp \<longrightarrow>
              pd' ! nat (r * rs + col * bpp + c) = pd1 ! nat (r * rs + (w - col - 1) * bpp + c)) \<and>
           (\<forall>i. 0 \<le> i \<and> i < int (length pd1)
                \<and> (\<forall>r col c. y + 1 \<le> r \<and> r < h \<and> 0 \<le> col \<and> col < w \<and> 0 \<le> c \<and> c < bpp \<longrightarrow>
                       i \<noteq> r * rs + col * bpp + c)
              \<longrightarrow> pd' ! nat i = pd1 ! nat i)"
      using True res1 gi ga "1.prems" len1 by (intro "1.IH") simp_all
    then obtain pd' where p':
      "flipRows pd1 w h rs bpp (y + 1) = Inr pd' \<and> length pd' = length pd1 \<and>
           (\<forall>r col c. y + 1 \<le> r \<and> r < h \<and> 0 \<le> col \<and> col < w \<and> 0 \<le> c \<and> c < bpp \<longrightarrow>
              pd' ! nat (r * rs + col * bpp + c) = pd1 ! nat (r * rs + (w - col - 1) * bpp + c)) \<and>
           (\<forall>i. 0 \<le> i \<and> i < int (length pd1)
                \<and> (\<forall>r col c. y + 1 \<le> r \<and> r < h \<and> 0 \<le> col \<and> col < w \<and> 0 \<le> c \<and> c < bpp \<longrightarrow>
                       i \<noteq> r * rs + col * bpp + c)
              \<longrightarrow> pd' ! nat i = pd1 ! nat i)" ..
    from p' have res: "flipRows pd1 w h rs bpp (y + 1) = Inr pd'" by (elim conjE)
    from p' have len: "length pd' = length pd1" by (elim conjE)
    from p' have in'': "\<forall>r col c. y + 1 \<le> r \<and> r < h \<and> 0 \<le> col \<and> col < w \<and> 0 \<le> c \<and> c < bpp \<longrightarrow>
              pd' ! nat (r * rs + col * bpp + c) = pd1 ! nat (r * rs + (w - col - 1) * bpp + c)"
      by (elim conjE)
    from p' have out'': "\<forall>i. 0 \<le> i \<and> i < int (length pd1)
                \<and> (\<forall>r col c. y + 1 \<le> r \<and> r < h \<and> 0 \<le> col \<and> col < w \<and> 0 \<le> c \<and> c < bpp \<longrightarrow>
                       i \<noteq> r * rs + col * bpp + c)
              \<longrightarrow> pd' ! nat i = pd1 ! nat i"
      by (elim conjE)
    have in': "pd' ! nat (r * rs + col * bpp + c) = pd1 ! nat (r * rs + (w - col - 1) * bpp + c)"
      if "y + 1 \<le> r" "r < h" "0 \<le> col" "col < w" "0 \<le> c" "c < bpp" for r col c
      using in'' that by simp
    have out': "pd' ! nat i = pd1 ! nat i"
      if "0 \<le> i" "i < int (length pd1)"
        "\<And>r col c. y + 1 \<le> r \<Longrightarrow> r < h \<Longrightarrow> 0 \<le> col \<Longrightarrow> col < w \<Longrightarrow> 0 \<le> c \<Longrightarrow> c < bpp \<Longrightarrow>
                   i \<noteq> r * rs + col * bpp + c" for i
      using out'' [rule_format, of i] that by simp
    have inrow: "0 \<le> col * bpp + c \<and> col * bpp + c < rs"
      if "0 \<le> col" "col < w" "0 \<le> c" "c < bpp" for col c
      using pix_bound [of col w c bpp] pix_nonneg [of col c bpp] that "1.prems" by simp
    have rng: "0 \<le> r * rs + col * bpp + c \<and> r * rs + col * bpp + c < int (length pd)"
      if "y \<le> r" "r < h" "0 \<le> col" "col < w" "0 \<le> c" "c < bpp" for r col c
    proof -
      have "0 \<le> r * rs" using that "1.prems" rs0 by simp
      then show ?thesis using inrow [of col c] rows [of r] that by linarith
    qed
    have diff: "r * rs + col * bpp + c \<noteq> r' * rs + col' * bpp + c'"
      if "r < r'" "0 \<le> col" "col < w" "0 \<le> c" "c < bpp" "0 \<le> col'" "col' < w" "0 \<le> c'" "c' < bpp"
      for r r' col col' c c'
      using pix_lt [of r r' "col * bpp + c" rs "col' * bpp + c'"] inrow [of col c] inrow [of col' c'] that rs0
      by simp
    have inP: "pd' ! nat (r * rs + col * bpp + c) = pd ! nat (r * rs + (w - col - 1) * bpp + c)"
      if h: "y \<le> r" "r < h" "0 \<le> col" "col < w" "0 \<le> c" "c < bpp" for r col c
    proof (cases "r = y")
      case True
      have "pd' ! nat (y * rs + col * bpp + c) = pd1 ! nat (y * rs + col * bpp + c)"
      proof (rule out')
        show "0 \<le> y * rs + col * bpp + c" "y * rs + col * bpp + c < int (length pd1)"
          using rng [of y col c] h \<open>y < h\<close> len1 by simp_all
      next
        fix r' col' c' :: int
        assume "y + 1 \<le> r'" "r' < h" "0 \<le> col'" "col' < w" "0 \<le> c'" "c' < bpp"
        then show "y * rs + col * bpp + c \<noteq> r' * rs + col' * bpp + c'"
          using diff [of y r' col c col' c'] h by simp
      qed
      then show ?thesis using in1 [of col c] h True by simp
    next
      case False
      then have r1: "y + 1 \<le> r" using h by simp
      have m: "0 \<le> w - col - 1" "w - col - 1 < w" using h by linarith+
      have "pd1 ! nat (r * rs + (w - col - 1) * bpp + c) = pd ! nat (r * rs + (w - col - 1) * bpp + c)"
      proof (rule out1)
        show "0 \<le> r * rs + (w - col - 1) * bpp + c" "r * rs + (w - col - 1) * bpp + c < int (length pd)"
          using rng [of r "w - col - 1" c] h m by simp_all
      next
        fix col' c' :: int
        assume "0 \<le> col'" "col' < w" "0 \<le> c'" "c' < bpp"
        then show "r * rs + (w - col - 1) * bpp + c \<noteq> y * rs + col' * bpp + c'"
          using diff [of y r col' c' "w - col - 1" c] h m r1 by simp
      qed
      then show ?thesis using in' [OF r1 h(2-6)] by simp
    qed
    have outP: "pd' ! nat i = pd ! nat i"
      if h: "0 \<le> i" "i < int (length pd)"
        "\<forall>r col c. y \<le> r \<and> r < h \<and> 0 \<le> col \<and> col < w \<and> 0 \<le> c \<and> c < bpp \<longrightarrow>
           i \<noteq> r * rs + col * bpp + c" for i
    proof -
      have "pd' ! nat i = pd1 ! nat i"
      proof (rule out')
        show "0 \<le> i" "i < int (length pd1)" using h len1 by simp_all
      next
        fix r' col' c' :: int
        assume "y + 1 \<le> r'" "r' < h" "0 \<le> col'" "col' < w" "0 \<le> c'" "c' < bpp"
        then show "i \<noteq> r' * rs + col' * bpp + c'"
          using h(3) [rule_format, of r' col' c'] by simp
      qed
      moreover have "pd1 ! nat i = pd ! nat i"
      proof (rule out1)
        show "0 \<le> i" "i < int (length pd)" using h by simp_all
      next
        fix col' c' :: int
        assume "0 \<le> col'" "col' < w" "0 \<le> c'" "c' < bpp"
        then show "i \<noteq> y * rs + col' * bpp + c'"
          using h(3) [rule_format, of y col' c'] True by simp
      qed
      ultimately show ?thesis by simp
    qed
    show ?thesis
    proof (intro exI [of _ pd'] conjI allI impI)
      show "flipRows pd w h rs bpp y = Inr pd'" using step res by simp
      show "length pd' = length pd" using len len1 by simp
    next
      fix r col c :: int
      assume "y \<le> r \<and> r < h \<and> 0 \<le> col \<and> col < w \<and> 0 \<le> c \<and> c < bpp"
      then show "pd' ! nat (r * rs + col * bpp + c) = pd ! nat (r * rs + (w - col - 1) * bpp + c)"
        using inP [of r col c] by simp
    next
      fix i :: int
      assume "0 \<le> i \<and> i < int (length pd)
                \<and> (\<forall>r col c. y \<le> r \<and> r < h \<and> 0 \<le> col \<and> col < w \<and> 0 \<le> c \<and> c < bpp \<longrightarrow>
                       i \<noteq> r * rs + col * bpp + c)"
      then show "pd' ! nat i = pd ! nat i"
        using outP [of i] by (elim conjE)
    qed
  qed
qed

lemma flipHorizontally_spec:
  assumes "0 \<le> bpp" "0 \<le> w" "w * bpp \<le> rs" "h * rs \<le> int (length pd)"
    and "h * rs \<le> 2147483647" "w \<le> 2147483647"
  shows "\<exists>pd'. flipHorizontally pd w h rs bpp = Inr pd' \<and> length pd' = length pd \<and>
           (\<forall>r col c. 0 \<le> r \<and> r < h \<and> 0 \<le> col \<and> col < w \<and> 0 \<le> c \<and> c < bpp \<longrightarrow>
              pd' ! nat (r * rs + col * bpp + c) = pd ! nat (r * rs + (w - col - 1) * bpp + c)) \<and>
           (\<forall>i. 0 \<le> i \<and> i < int (length pd)
                \<and> (\<forall>r col c. 0 \<le> r \<and> r < h \<and> 0 \<le> col \<and> col < w \<and> 0 \<le> c \<and> c < bpp \<longrightarrow>
                       i \<noteq> r * rs + col * bpp + c)
              \<longrightarrow> pd' ! nat i = pd ! nat i)"
  unfolding flipHorizontally_def by (rule flipRows_spec [OF order_refl assms])

section \<open>The horizontal flip swaps pixels\<close>

text \<open>
  C3. On a buffer that holds \<open>height\<close> rows of \<open>rowSize\<close> bytes, each with room for
  \<open>width\<close> pixels of \<open>bytesPerPixel\<close> bytes (the parameters are values of \<^verbatim>\<open>int\<close>, and
  so is the size \<open>height * rowSize\<close> of the rows), \<^verbatim>\<open>flipHorizontally\<close> returns a buffer of the
  same length in which, in every row and for every column \<open>x\<close> below \<open>width div 2\<close>, each
  byte of the pixel at \<open>x\<close> is the byte at the same position of the old pixel at
  \<open>width - 1 - x\<close> and the other way round; for an odd width the pixel in the middle is
  unchanged; and the bytes of a row from \<open>width * bytesPerPixel\<close> on are unchanged.
\<close>

theorem flip_swaps_pixels:
  assumes "0 \<le> bytesPerPixel" "0 \<le> width" "width * bytesPerPixel \<le> rowSize"
    and "height * rowSize \<le> int (length pixelData)"
    and "height * rowSize \<le> 2147483647"
    and "is_int bytesPerPixel" "is_int width" "is_int height" "is_int rowSize"
  shows "\<exists>flipped.
           flipHorizontally pixelData width height rowSize bytesPerPixel = Inr flipped
           \<and> length flipped = length pixelData
           \<and> (\<forall>y x byte. 0 \<le> y \<and> y < height \<and> 0 \<le> x \<and> x < width div 2
                    \<and> 0 \<le> byte \<and> byte < bytesPerPixel \<longrightarrow>
                 flipped ! nat (y * rowSize + x * bytesPerPixel + byte)
                   = pixelData ! nat (y * rowSize + (width - 1 - x) * bytesPerPixel + byte)
                 \<and> flipped ! nat (y * rowSize + (width - 1 - x) * bytesPerPixel + byte)
                   = pixelData ! nat (y * rowSize + x * bytesPerPixel + byte))
           \<and> (\<forall>y byte. 0 \<le> y \<and> y < height \<and> odd width \<and> 0 \<le> byte \<and> byte < bytesPerPixel \<longrightarrow>
                 flipped ! nat (y * rowSize + (width div 2) * bytesPerPixel + byte)
                   = pixelData ! nat (y * rowSize + (width div 2) * bytesPerPixel + byte))
           \<and> (\<forall>y k. 0 \<le> y \<and> y < height \<and> width * bytesPerPixel \<le> k \<and> k < rowSize \<longrightarrow>
                 flipped ! nat (y * rowSize + k) = pixelData ! nat (y * rowSize + k))"
proof -
  have wmax: "width \<le> 2147483647" using assms(7) by (simp add: is_int_def)
  from flipHorizontally_spec [OF assms(1-5) wmax]
  obtain pd' where p:
    "flipHorizontally pixelData width height rowSize bytesPerPixel = Inr pd' \<and> length pd' = length pixelData \<and>
           (\<forall>r col c. 0 \<le> r \<and> r < height \<and> 0 \<le> col \<and> col < width \<and> 0 \<le> c \<and> c < bytesPerPixel \<longrightarrow>
              pd' ! nat (r * rowSize + col * bytesPerPixel + c)
                = pixelData ! nat (r * rowSize + (width - col - 1) * bytesPerPixel + c)) \<and>
           (\<forall>i. 0 \<le> i \<and> i < int (length pixelData)
                \<and> (\<forall>r col c. 0 \<le> r \<and> r < height \<and> 0 \<le> col \<and> col < width \<and> 0 \<le> c \<and> c < bytesPerPixel \<longrightarrow>
                       i \<noteq> r * rowSize + col * bytesPerPixel + c)
              \<longrightarrow> pd' ! nat i = pixelData ! nat i)" ..
  from p have res: "flipHorizontally pixelData width height rowSize bytesPerPixel = Inr pd'"
    by (elim conjE)
  from p have len: "length pd' = length pixelData" by (elim conjE)
  from p have inP': "\<forall>r col c. 0 \<le> r \<and> r < height \<and> 0 \<le> col \<and> col < width \<and> 0 \<le> c \<and> c < bytesPerPixel \<longrightarrow>
              pd' ! nat (r * rowSize + col * bytesPerPixel + c)
                = pixelData ! nat (r * rowSize + (width - col - 1) * bytesPerPixel + c)"
    by (elim conjE)
  from p have outP': "\<forall>i. 0 \<le> i \<and> i < int (length pixelData)
                \<and> (\<forall>r col c. 0 \<le> r \<and> r < height \<and> 0 \<le> col \<and> col < width \<and> 0 \<le> c \<and> c < bytesPerPixel \<longrightarrow>
                       i \<noteq> r * rowSize + col * bytesPerPixel + c)
              \<longrightarrow> pd' ! nat i = pixelData ! nat i"
    by (elim conjE)
  have inP: "pd' ! nat (r * rowSize + col * bytesPerPixel + c)
                = pixelData ! nat (r * rowSize + (width - col - 1) * bytesPerPixel + c)"
    if "0 \<le> r" "r < height" "0 \<le> col" "col < width" "0 \<le> c" "c < bytesPerPixel" for r col c
    using inP' that by simp
  have rs0: "0 \<le> rowSize"
    using assms mult_nonneg_nonneg [of width bytesPerPixel] by linarith
  have rows: "r * rowSize + rowSize \<le> int (length pixelData)" if "r < height" for r
  proof -
    have "(r + 1) * rowSize \<le> height * rowSize" using that rs0 by (intro mult_right_mono) simp_all
    then show ?thesis using assms by (simp add: algebra_simps)
  qed
  have swap: "pd' ! nat (y * rowSize + x * bytesPerPixel + byte)
                   = pixelData ! nat (y * rowSize + (width - 1 - x) * bytesPerPixel + byte)
                 \<and> pd' ! nat (y * rowSize + (width - 1 - x) * bytesPerPixel + byte)
                   = pixelData ! nat (y * rowSize + x * bytesPerPixel + byte)"
    if h: "0 \<le> y \<and> y < height \<and> 0 \<le> x \<and> x < width div 2 \<and> 0 \<le> byte \<and> byte < bytesPerPixel"
    for y x byte
  proof -
    have xw: "2 * x + 2 \<le> width" using h by presburger
    have e1: "width - x - 1 = width - 1 - x" and e2: "width - (width - 1 - x) - 1 = x" by simp_all
    have "pd' ! nat (y * rowSize + x * bytesPerPixel + byte)
            = pixelData ! nat (y * rowSize + (width - x - 1) * bytesPerPixel + byte)"
      using h xw by (intro inP) linarith+
    moreover have "pd' ! nat (y * rowSize + (width - 1 - x) * bytesPerPixel + byte)
            = pixelData ! nat (y * rowSize + (width - (width - 1 - x) - 1) * bytesPerPixel + byte)"
      using h xw by (intro inP) linarith+
    ultimately show ?thesis unfolding e1 e2 by simp
  qed
  have middle: "pd' ! nat (y * rowSize + (width div 2) * bytesPerPixel + byte)
                   = pixelData ! nat (y * rowSize + (width div 2) * bytesPerPixel + byte)"
    if h: "0 \<le> y \<and> y < height \<and> odd width \<and> 0 \<le> byte \<and> byte < bytesPerPixel" for y byte
  proof -
    have o: "width = 2 * (width div 2) + 1" using h by presburger
    then have m: "width - width div 2 - 1 = width div 2" by linarith
    have "0 \<le> width div 2" "width div 2 < width" using o assms(2) by linarith+
    then have "pd' ! nat (y * rowSize + (width div 2) * bytesPerPixel + byte)
            = pixelData ! nat (y * rowSize + (width - width div 2 - 1) * bytesPerPixel + byte)"
      using h by (intro inP) simp_all
    then show ?thesis unfolding m .
  qed
  have padding: "pd' ! nat (y * rowSize + k) = pixelData ! nat (y * rowSize + k)"
    if h: "0 \<le> y \<and> y < height \<and> width * bytesPerPixel \<le> k \<and> k < rowSize" for y k
  proof -
    have k0: "0 \<le> k" using h assms mult_nonneg_nonneg [of width bytesPerPixel] by linarith
    have "0 \<le> y * rowSize" using h rs0 by simp
    then have r: "0 \<le> y * rowSize + k \<and> y * rowSize + k < int (length pixelData)"
      using rows [of y] h k0 by linarith
    have n: "y * rowSize + k \<noteq> r * rowSize + col * bytesPerPixel + c"
      if g: "0 \<le> r \<and> r < height \<and> 0 \<le> col \<and> col < width \<and> 0 \<le> c \<and> c < bytesPerPixel" for r col c
    proof -
      have b: "col * bytesPerPixel + c < width * bytesPerPixel" "0 \<le> col * bytesPerPixel + c"
        using pix_bound [of col width c bytesPerPixel] pix_nonneg [of col c bytesPerPixel] g assms by simp_all
      consider "r < y" | "r = y" | "y < r" by linarith
      then show ?thesis
      proof cases
        case 1
        then show ?thesis
          using pix_lt [of r y "col * bytesPerPixel + c" rowSize k] b k0 rs0 assms(3) by simp
      next
        case 2
        then show ?thesis using b h by simp
      next
        case 3
        then show ?thesis
          using pix_lt [of y r k rowSize "col * bytesPerPixel + c"] b h rs0 by simp
      qed
    qed
    have "0 \<le> y * rowSize + k \<and> y * rowSize + k < int (length pixelData)
                \<and> (\<forall>r col c. 0 \<le> r \<and> r < height \<and> 0 \<le> col \<and> col < width \<and> 0 \<le> c \<and> c < bytesPerPixel \<longrightarrow>
                       y * rowSize + k \<noteq> r * rowSize + col * bytesPerPixel + c)"
      using r n by blast
    then show ?thesis by (rule outP' [rule_format])
  qed
  show ?thesis
  proof (intro exI [of _ pd'] conjI allI impI)
    show "flipHorizontally pixelData width height rowSize bytesPerPixel = Inr pd'" by (rule res)
    show "length pd' = length pixelData" by (rule len)
  next
    fix y x byte :: int
    assume h: "0 \<le> y \<and> y < height \<and> 0 \<le> x \<and> x < width div 2 \<and> 0 \<le> byte \<and> byte < bytesPerPixel"
    show "pd' ! nat (y * rowSize + x * bytesPerPixel + byte)
                   = pixelData ! nat (y * rowSize + (width - 1 - x) * bytesPerPixel + byte)"
      using swap [OF h] by (rule conjunct1)
    show "pd' ! nat (y * rowSize + (width - 1 - x) * bytesPerPixel + byte)
                   = pixelData ! nat (y * rowSize + x * bytesPerPixel + byte)"
      using swap [OF h] by (rule conjunct2)
  next
    fix y byte :: int
    assume "0 \<le> y \<and> y < height \<and> odd width \<and> 0 \<le> byte \<and> byte < bytesPerPixel"
    then show "pd' ! nat (y * rowSize + (width div 2) * bytesPerPixel + byte)
                   = pixelData ! nat (y * rowSize + (width div 2) * bytesPerPixel + byte)"
      by (rule middle)
  next
    fix y k :: int
    assume "0 \<le> y \<and> y < height \<and> width * bytesPerPixel \<le> k \<and> k < rowSize"
    then show "pd' ! nat (y * rowSize + k) = pixelData ! nat (y * rowSize + k)"
      by (rule padding)
  qed
qed

text \<open>
  C3, witness: two rows of three 24-bit pixels and three bytes of padding; the first and
  the third pixel of each row change places, the second pixel and the padding stay.
\<close>

theorem flip_swaps_pixels_witness:
  "(0 :: int) \<le> 3 \<and> (0 :: int) \<le> 3 \<and> (3 :: int) * 3 \<le> 12
   \<and> (2 :: int) * 12 \<le> int (length [1, 2, 3, 4, 5, 6, 7, 8, 9, 0, 0, 0, 11, 12, 13, 14, 15, 16, 17, 18, 19, 20, 21, 22 :: u8])
   \<and> (2 :: int) * 12 \<le> 2147483647
   \<and> is_int 3 \<and> is_int 3 \<and> is_int 2 \<and> is_int 12
   \<and> flipHorizontally [1, 2, 3, 4, 5, 6, 7, 8, 9, 0, 0, 0, 11, 12, 13, 14, 15, 16, 17, 18, 19, 20, 21, 22] 3 2 12 3
       = Inr [7, 8, 9, 4, 5, 6, 1, 2, 3, 0, 0, 0, 17, 18, 19, 14, 15, 16, 11, 12, 13, 20, 21, 22]
   \<and> (\<exists>flipped.
           flipHorizontally [1, 2, 3, 4, 5, 6, 7, 8, 9, 0, 0, 0, 11, 12, 13, 14, 15, 16, 17, 18, 19, 20, 21, 22] 3 2 12 3 = Inr flipped
           \<and> length flipped = length [1, 2, 3, 4, 5, 6, 7, 8, 9, 0, 0, 0, 11, 12, 13, 14, 15, 16, 17, 18, 19, 20, 21, 22 :: u8]
           \<and> (\<forall>y x byte. 0 \<le> y \<and> y < 2 \<and> 0 \<le> x \<and> x < 3 div 2
                    \<and> 0 \<le> byte \<and> byte < 3 \<longrightarrow>
                 flipped ! nat (y * 12 + x * 3 + byte)
                   = [1, 2, 3, 4, 5, 6, 7, 8, 9, 0, 0, 0, 11, 12, 13, 14, 15, 16, 17, 18, 19, 20, 21, 22 :: u8] ! nat (y * 12 + (3 - 1 - x) * 3 + byte)
                 \<and> flipped ! nat (y * 12 + (3 - 1 - x) * 3 + byte)
                   = [1, 2, 3, 4, 5, 6, 7, 8, 9, 0, 0, 0, 11, 12, 13, 14, 15, 16, 17, 18, 19, 20, 21, 22 :: u8] ! nat (y * 12 + x * 3 + byte))
           \<and> (\<forall>y byte. 0 \<le> y \<and> y < 2 \<and> odd (3 :: int) \<and> 0 \<le> byte \<and> byte < 3 \<longrightarrow>
                 flipped ! nat (y * 12 + (3 div 2) * 3 + byte)
                   = [1, 2, 3, 4, 5, 6, 7, 8, 9, 0, 0, 0, 11, 12, 13, 14, 15, 16, 17, 18, 19, 20, 21, 22 :: u8] ! nat (y * 12 + (3 div 2) * 3 + byte))
           \<and> (\<forall>y k. 0 \<le> y \<and> y < 2 \<and> 3 * 3 \<le> k \<and> k < 12 \<longrightarrow>
                 flipped ! nat (y * 12 + k) = [1, 2, 3, 4, 5, 6, 7, 8, 9, 0, 0, 0, 11, 12, 13, 14, 15, 16, 17, 18, 19, 20, 21, 22 :: u8] ! nat (y * 12 + k)))"
proof -
  have h: "(0 :: int) \<le> 3" "(3 :: int) * 3 \<le> 12"
    "(2 :: int) * 12 \<le> int (length [1, 2, 3, 4, 5, 6, 7, 8, 9, 0, 0, 0, 11, 12, 13, 14, 15, 16, 17, 18, 19, 20, 21, 22 :: u8])"
    "(2 :: int) * 12 \<le> 2147483647"
    "is_int 3" "is_int 2" "is_int 12"
    by (simp_all add: is_int_def)
  have e: "flipHorizontally [1, 2, 3, 4, 5, 6, 7, 8, 9, 0, 0, 0, 11, 12, 13, 14, 15, 16, 17, 18, 19, 20, 21, 22] 3 2 12 3
       = Inr [7, 8, 9, 4, 5, 6, 1, 2, 3, 0, 0, 0, 17, 18, 19, 14, 15, 16, 11, 12, 13, 20, 21, 22]"
    by code_simp
  from flip_swaps_pixels [OF h(1) h(1) h(2) h(3) h(4) h(5) h(5) h(6) h(7)] h e
  show ?thesis by (intro conjI)
qed

section \<open>The horizontal flip is an involution\<close>

text \<open>
  C6. On a buffer as in C3 (any width, height and number of bytes per pixel, and any stride
  that has room for the pixels of a row; the parameters and the size \<open>height * rowSize\<close> of
  the rows are values of \<^verbatim>\<open>int\<close>), flipping the flipped buffer returns the original buffer.
\<close>

theorem flip_involution:
  assumes "0 \<le> bytesPerPixel" "0 \<le> width" "width * bytesPerPixel \<le> rowSize"
    and "height * rowSize \<le> int (length pixelData)"
    and "height * rowSize \<le> 2147483647"
    and "is_int bytesPerPixel" "is_int width" "is_int height" "is_int rowSize"
  shows "\<exists>flipped.
           flipHorizontally pixelData width height rowSize bytesPerPixel = Inr flipped
           \<and> flipHorizontally flipped width height rowSize bytesPerPixel = Inr pixelData"
proof -
  let ?post = "\<lambda>pd pd'. flipHorizontally pd width height rowSize bytesPerPixel = Inr pd' \<and> length pd' = length pd \<and>
           (\<forall>r col c. 0 \<le> r \<and> r < height \<and> 0 \<le> col \<and> col < width \<and> 0 \<le> c \<and> c < bytesPerPixel \<longrightarrow>
              pd' ! nat (r * rowSize + col * bytesPerPixel + c)
                = pd ! nat (r * rowSize + (width - col - 1) * bytesPerPixel + c)) \<and>
           (\<forall>i. 0 \<le> i \<and> i < int (length pd)
                \<and> (\<forall>r col c. 0 \<le> r \<and> r < height \<and> 0 \<le> col \<and> col < width \<and> 0 \<le> c \<and> c < bytesPerPixel \<longrightarrow>
                       i \<noteq> r * rowSize + col * bytesPerPixel + c)
              \<longrightarrow> pd' ! nat i = pd ! nat i)"
  have wmax: "width \<le> 2147483647" using assms(7) by (simp add: is_int_def)
  from flipHorizontally_spec [OF assms(1-5) wmax]
  obtain pd1 where p1: "?post pixelData pd1" ..
  from p1 have res1: "flipHorizontally pixelData width height rowSize bytesPerPixel = Inr pd1"
    by (elim conjE)
  from p1 have len1: "length pd1 = length pixelData" by (elim conjE)
  from p1 have in1: "\<forall>r col c. 0 \<le> r \<and> r < height \<and> 0 \<le> col \<and> col < width \<and> 0 \<le> c \<and> c < bytesPerPixel \<longrightarrow>
              pd1 ! nat (r * rowSize + col * bytesPerPixel + c)
                = pixelData ! nat (r * rowSize + (width - col - 1) * bytesPerPixel + c)"
    by (elim conjE)
  from p1 have out1: "\<forall>i. 0 \<le> i \<and> i < int (length pixelData)
                \<and> (\<forall>r col c. 0 \<le> r \<and> r < height \<and> 0 \<le> col \<and> col < width \<and> 0 \<le> c \<and> c < bytesPerPixel \<longrightarrow>
                       i \<noteq> r * rowSize + col * bytesPerPixel + c)
              \<longrightarrow> pd1 ! nat i = pixelData ! nat i"
    by (elim conjE)
  have wf1: "height * rowSize \<le> int (length pd1)" using assms len1 by simp
  from flipHorizontally_spec [OF assms(1-3) wf1 assms(5) wmax]
  obtain pd2 where p2: "?post pd1 pd2" ..
  from p2 have res2: "flipHorizontally pd1 width height rowSize bytesPerPixel = Inr pd2"
    by (elim conjE)
  from p2 have len2: "length pd2 = length pd1" by (elim conjE)
  from p2 have in2: "\<forall>r col c. 0 \<le> r \<and> r < height \<and> 0 \<le> col \<and> col < width \<and> 0 \<le> c \<and> c < bytesPerPixel \<longrightarrow>
              pd2 ! nat (r * rowSize + col * bytesPerPixel + c)
                = pd1 ! nat (r * rowSize + (width - col - 1) * bytesPerPixel + c)"
    by (elim conjE)
  from p2 have out2: "\<forall>i. 0 \<le> i \<and> i < int (length pd1)
                \<and> (\<forall>r col c. 0 \<le> r \<and> r < height \<and> 0 \<le> col \<and> col < width \<and> 0 \<le> c \<and> c < bytesPerPixel \<longrightarrow>
                       i \<noteq> r * rowSize + col * bytesPerPixel + c)
              \<longrightarrow> pd2 ! nat i = pd1 ! nat i"
    by (elim conjE)
  have "pd2 = pixelData"
  proof (rule nth_equalityI)
    show "length pd2 = length pixelData" using len2 len1 by simp
  next
    fix n assume n: "n < length pd2"
    show "pd2 ! n = pixelData ! n"
    proof (cases "\<forall>r col c. 0 \<le> r \<and> r < height \<and> 0 \<le> col \<and> col < width \<and> 0 \<le> c \<and> c < bytesPerPixel \<longrightarrow>
                       int n \<noteq> r * rowSize + col * bytesPerPixel + c")
      case False
      then obtain r col c where h: "0 \<le> r \<and> r < height \<and> 0 \<le> col \<and> col < width \<and> 0 \<le> c \<and> c < bytesPerPixel"
        and i: "int n = r * rowSize + col * bytesPerPixel + c" by blast
      have h': "0 \<le> r \<and> r < height \<and> 0 \<le> width - col - 1 \<and> width - col - 1 < width \<and> 0 \<le> c \<and> c < bytesPerPixel"
        using h by linarith
      have e: "width - (width - col - 1) - 1 = col" by simp
      have "pd2 ! nat (int n) = pd1 ! nat (r * rowSize + (width - col - 1) * bytesPerPixel + c)"
        unfolding i using in2 [rule_format, OF h] .
      also have "\<dots> = pixelData ! nat (r * rowSize + (width - (width - col - 1) - 1) * bytesPerPixel + c)"
        using in1 [rule_format, OF h'] .
      also have "\<dots> = pixelData ! nat (int n)" unfolding e i ..
      finally show ?thesis by simp
    next
      case True
      have a1: "0 \<le> int n \<and> int n < int (length pd1)
                \<and> (\<forall>r col c. 0 \<le> r \<and> r < height \<and> 0 \<le> col \<and> col < width \<and> 0 \<le> c \<and> c < bytesPerPixel \<longrightarrow>
                       int n \<noteq> r * rowSize + col * bytesPerPixel + c)"
        using n len2 True by simp
      have a2: "0 \<le> int n \<and> int n < int (length pixelData)
                \<and> (\<forall>r col c. 0 \<le> r \<and> r < height \<and> 0 \<le> col \<and> col < width \<and> 0 \<le> c \<and> c < bytesPerPixel \<longrightarrow>
                       int n \<noteq> r * rowSize + col * bytesPerPixel + c)"
        using n len2 len1 True by simp
      have "pd2 ! nat (int n) = pd1 ! nat (int n)"
        using a1 by (rule out2 [rule_format])
      also have "\<dots> = pixelData ! nat (int n)"
        using a2 by (rule out1 [rule_format])
      finally show ?thesis by simp
    qed
  qed
  with res1 res2 show ?thesis by simp
qed

text \<open>C6, witness: two rows of three 24-bit pixels and three bytes of padding.\<close>

theorem flip_involution_witness:
  "(0 :: int) \<le> 3 \<and> (0 :: int) \<le> 3 \<and> (3 :: int) * 3 \<le> 12
   \<and> (2 :: int) * 12 \<le> int (length [1, 2, 3, 4, 5, 6, 7, 8, 9, 0, 0, 0, 11, 12, 13, 14, 15, 16, 17, 18, 19, 20, 21, 22 :: u8])
   \<and> (2 :: int) * 12 \<le> 2147483647
   \<and> is_int 3 \<and> is_int 3 \<and> is_int 2 \<and> is_int 12
   \<and> flipHorizontally [1, 2, 3, 4, 5, 6, 7, 8, 9, 0, 0, 0, 11, 12, 13, 14, 15, 16, 17, 18, 19, 20, 21, 22] 3 2 12 3
       = Inr [7, 8, 9, 4, 5, 6, 1, 2, 3, 0, 0, 0, 17, 18, 19, 14, 15, 16, 11, 12, 13, 20, 21, 22]
   \<and> flipHorizontally [7, 8, 9, 4, 5, 6, 1, 2, 3, 0, 0, 0, 17, 18, 19, 14, 15, 16, 11, 12, 13, 20, 21, 22] 3 2 12 3
       = Inr [1, 2, 3, 4, 5, 6, 7, 8, 9, 0, 0, 0, 11, 12, 13, 14, 15, 16, 17, 18, 19, 20, 21, 22]
   \<and> (\<exists>flipped.
           flipHorizontally [1, 2, 3, 4, 5, 6, 7, 8, 9, 0, 0, 0, 11, 12, 13, 14, 15, 16, 17, 18, 19, 20, 21, 22] 3 2 12 3 = Inr flipped
           \<and> flipHorizontally flipped 3 2 12 3 = Inr [1, 2, 3, 4, 5, 6, 7, 8, 9, 0, 0, 0, 11, 12, 13, 14, 15, 16, 17, 18, 19, 20, 21, 22])"
proof -
  have h: "(0 :: int) \<le> 3" "(3 :: int) * 3 \<le> 12"
    "(2 :: int) * 12 \<le> int (length [1, 2, 3, 4, 5, 6, 7, 8, 9, 0, 0, 0, 11, 12, 13, 14, 15, 16, 17, 18, 19, 20, 21, 22 :: u8])"
    "(2 :: int) * 12 \<le> 2147483647"
    "is_int 3" "is_int 2" "is_int 12"
    by (simp_all add: is_int_def)
  have e: "flipHorizontally [1, 2, 3, 4, 5, 6, 7, 8, 9, 0, 0, 0, 11, 12, 13, 14, 15, 16, 17, 18, 19, 20, 21, 22] 3 2 12 3
       = Inr [7, 8, 9, 4, 5, 6, 1, 2, 3, 0, 0, 0, 17, 18, 19, 14, 15, 16, 11, 12, 13, 20, 21, 22]"
    "flipHorizontally [7, 8, 9, 4, 5, 6, 1, 2, 3, 0, 0, 0, 17, 18, 19, 14, 15, 16, 11, 12, 13, 20, 21, 22] 3 2 12 3
       = Inr [1, 2, 3, 4, 5, 6, 7, 8, 9, 0, 0, 0, 11, 12, 13, 14, 15, 16, 17, 18, 19, 20, 21, 22]"
    by code_simp+
  from flip_involution [OF h(1) h(1) h(2) h(3) h(4) h(5) h(5) h(6) h(7)] h e
  show ?thesis by (intro conjI)
qed

section \<open>The loop of the cropping\<close>

lemma memcpy_spec:
  assumes "0 \<le> n" "0 \<le> d" "0 \<le> s" "d + n \<le> int (length dest)" "s + n \<le> int (length src)"
  shows "\<exists>out. memcpy dest d src s n = Inr out \<and> length out = length dest \<and>
           (\<forall>i. 0 \<le> i \<and> i < int (length dest) \<longrightarrow> out ! nat i =
              (if d \<le> i \<and> i < d + n then src ! nat (s + (i - d)) else dest ! nat i))"
proof -
  define D N S where "D = nat d" and "N = nat n" and "S = nat s"
  define out where "out = take D dest @ take N (drop S src) @ drop (D + N) dest"
  have dn: "nat (d + n) = D + N" using assms by (simp add: D_def N_def nat_add_distrib)
  have bd: "D + N \<le> length dest" and bs: "S + N \<le> length src"
    using assms by (simp_all add: D_def N_def S_def nat_le_iff nat_add_distrib)
  have r: "memcpy dest d src s n = Inr out"
    using assms by (simp add: memcpy_def out_def D_def N_def S_def dn [unfolded D_def N_def])
  have l: "length out = length dest" using bd bs by (simp add: out_def)
  have nth: "out ! m = (if D \<le> m \<and> m < D + N then src ! (S + (m - D)) else dest ! m)"
    if "m < length dest" for m
  proof -
    consider (a) "m < D" | (b) "D \<le> m" "m < D + N" | (c) "D + N \<le> m" by linarith
    then show ?thesis
    proof cases
      case a
      then show ?thesis using bd by (simp add: out_def nth_append)
    next
      case b
      then have k: "m - D < N" by linarith
      from b have "out ! m = (take N (drop S src) @ drop (D + N) dest) ! (m - D)"
        using bd by (simp add: out_def nth_append)
      also have "\<dots> = take N (drop S src) ! (m - D)"
        using k bs by (simp add: nth_append)
      also have "\<dots> = src ! (S + (m - D))"
        using k bs by simp
      finally show ?thesis using b by simp
    next
      case c
      then have k: "\<not> m - D < N" by linarith
      from c have "out ! m = (take N (drop S src) @ drop (D + N) dest) ! (m - D)"
        using bd by (simp add: out_def nth_append)
      also have "\<dots> = drop (D + N) dest ! (m - D - N)"
        using k bs by (simp add: nth_append)
      also have "\<dots> = dest ! m"
        using c that by simp
      finally show ?thesis using c by simp
    qed
  qed
  have "out ! nat i = (if d \<le> i \<and> i < d + n then src ! nat (s + (i - d)) else dest ! nat i)"
    if h: "0 \<le> i \<and> i < int (length dest)" for i
  proof -
    have m: "nat i < length dest" using h by (simp add: nat_less_iff)
    have c: "(D \<le> nat i \<and> nat i < D + N) \<longleftrightarrow> (d \<le> i \<and> i < d + n)"
      using h assms by (auto simp add: D_def N_def nat_le_iff nat_less_iff)
    have e: "S + (nat i - D) = nat (s + (i - d))" if "d \<le> i"
      using that h assms by (simp add: S_def D_def nat_add_distrib nat_diff_distrib)
    show ?thesis using nth [OF m] c e by auto
  qed
  with r l show ?thesis by blast
qed

lemma resize_spec:
  assumes "0 \<le> n"
  shows "\<exists>out. resize v n = Inr out \<and> int (length out) = n"
  using assms by (simp add: resize_def)

lemma cropRows_spec:
  assumes "0 \<le> j" "0 \<le> x" "0 \<le> y" "0 \<le> cw" "0 \<le> bpp"
    and "cw * bpp \<le> crs" "ch * crs \<le> int (length dest)"
    and "(x + cw) * bpp \<le> rs" "(y + ch) * rs \<le> int (length src)"
    and "y + ch \<le> 2147483647" "(y + ch) * rs \<le> 2147483647" "ch * crs \<le> 2147483647"
  shows "\<exists>out. cropRows src dest bpp rs x y cw ch crs j = Inr out \<and> length out = length dest \<and>
           (\<forall>r c. j \<le> r \<and> r < ch \<and> 0 \<le> c \<and> c < cw * bpp \<longrightarrow>
              out ! nat (r * crs + c) = src ! nat ((y + r) * rs + x * bpp + c)) \<and>
           (\<forall>i. 0 \<le> i \<and> i < int (length dest)
                \<and> (\<forall>r c. j \<le> r \<and> r < ch \<and> 0 \<le> c \<and> c < cw * bpp \<longrightarrow> i \<noteq> r * crs + c)
              \<longrightarrow> out ! nat i = dest ! nat i)"
  using assms
proof (induction src dest bpp rs x y cw ch crs j rule: cropRows.induct)
  case (1 src dest bpp rs x y cw ch crs j)
  show ?case
  proof (cases "j < ch")
    case False
    then show ?thesis
      by (auto simp add: cropRows.simps [of src dest bpp rs x y cw ch crs j])
  next
    case True
    define n where "n = cw * bpp"
    define d where "d = j * crs"
    define s where "s = (y + j) * rs + x * bpp"
    have n0: "0 \<le> n" using "1.prems" by (simp add: n_def)
    have crs0: "0 \<le> crs" using n0 "1.prems"(6) unfolding n_def by linarith
    have xb0: "0 \<le> x * bpp" using "1.prems" by simp
    have "0 \<le> (x + cw) * bpp" using "1.prems" by simp
    then have rs0: "0 \<le> rs" using "1.prems" by linarith
    have d0: "0 \<le> d" using "1.prems" crs0 by (simp add: d_def)
    have s0: "0 \<le> s" using "1.prems" rs0 xb0 by (simp add: s_def)
    have jc: "(j + 1) * crs \<le> ch * crs" using True crs0 by (intro mult_right_mono) simp_all
    then have dn: "d + n \<le> int (length dest)"
      using "1.prems" by (simp add: d_def n_def algebra_simps)
    have yr: "(y + j + 1) * rs \<le> (y + ch) * rs" using True rs0 by (intro mult_right_mono) simp_all
    have xc: "x * bpp + cw * bpp \<le> rs" using "1.prems" by (simp add: algebra_simps)
    have sn: "s + n \<le> int (length src)"
      using yr xc "1.prems" by (simp add: s_def n_def algebra_simps)
    have yj0: "0 \<le> (y + j) * rs" using "1.prems"(1,3) rs0 by simp
    have dmax: "d + n \<le> 2147483647"
      using jc "1.prems"(6,12) by (simp add: d_def n_def algebra_simps)
    have smax: "s + n \<le> 2147483647"
      using yr xc "1.prems"(11) by (simp add: s_def n_def algebra_simps)
    have g: "list_all is_int
        [y + j, (y + j) * rs, x * bpp, (y + j) * rs + x * bpp, j * crs, cw * bpp]"
      using True "1.prems"(1,3,10) yj0 xb0 n0 d0 dmax smax
      by (simp add: is_int_def d_def s_def n_def)
    from memcpy_spec [OF n0 d0 s0 dn sn]
    obtain d1 where p1: "memcpy dest d src s n = Inr d1 \<and> length d1 = length dest \<and>
           (\<forall>i. 0 \<le> i \<and> i < int (length dest) \<longrightarrow> d1 ! nat i =
              (if d \<le> i \<and> i < d + n then src ! nat (s + (i - d)) else dest ! nat i))" ..
    from p1 have res1: "memcpy dest d src s n = Inr d1" by (elim conjE)
    from p1 have len1: "length d1 = length dest" by (elim conjE)
    from p1 have nth1': "\<forall>i. 0 \<le> i \<and> i < int (length dest) \<longrightarrow> d1 ! nat i =
              (if d \<le> i \<and> i < d + n then src ! nat (s + (i - d)) else dest ! nat i)"
      by (elim conjE)
    have nth1: "d1 ! nat i = (if d \<le> i \<and> i < d + n then src ! nat (s + (i - d)) else dest ! nat i)"
      if "0 \<le> i" "i < int (length dest)" for i
      using nth1' that by simp
    have step: "cropRows src dest bpp rs x y cw ch crs j = cropRows src d1 bpp rs x y cw ch crs (j + 1)"
      using True res1 g
      by (simp add: cropRows.simps [of src dest bpp rs x y cw ch crs j] Let_def d_def s_def n_def)
    have "\<exists>out. cropRows src d1 bpp rs x y cw ch crs (j + 1) = Inr out \<and> length out = length d1 \<and>
           (\<forall>r c. j + 1 \<le> r \<and> r < ch \<and> 0 \<le> c \<and> c < cw * bpp \<longrightarrow>
              out ! nat (r * crs + c) = src ! nat ((y + r) * rs + x * bpp + c)) \<and>
           (\<forall>i. 0 \<le> i \<and> i < int (length d1)
                \<and> (\<forall>r c. j + 1 \<le> r \<and> r < ch \<and> 0 \<le> c \<and> c < cw * bpp \<longrightarrow> i \<noteq> r * crs + c)
              \<longrightarrow> out ! nat i = d1 ! nat i)"
      using True res1 g "1.prems" len1
      by (intro "1.IH" [of "y + j" s d]) (simp_all add: d_def s_def n_def)
    then obtain out where p': "cropRows src d1 bpp rs x y cw ch crs (j + 1) = Inr out \<and> length out = length d1 \<and>
           (\<forall>r c. j + 1 \<le> r \<and> r < ch \<and> 0 \<le> c \<and> c < cw * bpp \<longrightarrow>
              out ! nat (r * crs + c) = src ! nat ((y + r) * rs + x * bpp + c)) \<and>
           (\<forall>i. 0 \<le> i \<and> i < int (length d1)
                \<and> (\<forall>r c. j + 1 \<le> r \<and> r < ch \<and> 0 \<le> c \<and> c < cw * bpp \<longrightarrow> i \<noteq> r * crs + c)
              \<longrightarrow> out ! nat i = d1 ! nat i)" ..
    from p' have res: "cropRows src d1 bpp rs x y cw ch crs (j + 1) = Inr out" by (elim conjE)
    from p' have len: "length out = length d1" by (elim conjE)
    from p' have in'': "\<forall>r c. j + 1 \<le> r \<and> r < ch \<and> 0 \<le> c \<and> c < cw * bpp \<longrightarrow>
              out ! nat (r * crs + c) = src ! nat ((y + r) * rs + x * bpp + c)" by (elim conjE)
    from p' have out'': "\<forall>i. 0 \<le> i \<and> i < int (length d1)
                \<and> (\<forall>r c. j + 1 \<le> r \<and> r < ch \<and> 0 \<le> c \<and> c < cw * bpp \<longrightarrow> i \<noteq> r * crs + c)
              \<longrightarrow> out ! nat i = d1 ! nat i" by (elim conjE)
    have out': "out ! nat i = d1 ! nat i"
      if "0 \<le> i" "i < int (length dest)"
        "\<And>r c. j + 1 \<le> r \<Longrightarrow> r < ch \<Longrightarrow> 0 \<le> c \<Longrightarrow> c < cw * bpp \<Longrightarrow> i \<noteq> r * crs + c" for i
      using out'' [rule_format, of i] that len1 by simp
    have inP: "out ! nat (r * crs + c) = src ! nat ((y + r) * rs + x * bpp + c)"
      if h: "j \<le> r" "r < ch" "0 \<le> c" "c < cw * bpp" for r c
    proof (cases "r = j")
      case False
      then have "j + 1 \<le> r \<and> r < ch \<and> 0 \<le> c \<and> c < cw * bpp" using h by simp
      then show ?thesis by (rule in'' [rule_format])
    next
      case True
      have ir: "0 \<le> d + c" "d + c < int (length dest)" using d0 dn h by (simp_all add: n_def)
      have "out ! nat (d + c) = d1 ! nat (d + c)"
      proof (rule out' [OF ir])
        fix r' c' :: int
        assume "j + 1 \<le> r'" "r' < ch" "0 \<le> c'" "c' < cw * bpp"
        then show "d + c \<noteq> r' * crs + c'"
          using pix_lt [of j r' c crs c'] h "1.prems"(6) crs0 by (simp add: d_def)
      qed
      also have "\<dots> = src ! nat (s + (d + c - d))"
        using nth1 [OF ir] h by (simp add: n_def)
      finally show ?thesis using True by (simp add: d_def s_def)
    qed
    have outP: "out ! nat i = dest ! nat i"
      if h: "0 \<le> i" "i < int (length dest)"
        "\<forall>r c. j \<le> r \<and> r < ch \<and> 0 \<le> c \<and> c < cw * bpp \<longrightarrow> i \<noteq> r * crs + c" for i
    proof -
      have "out ! nat i = d1 ! nat i"
      proof (rule out' [OF h(1) h(2)])
        fix r' c' :: int
        assume "j + 1 \<le> r'" "r' < ch" "0 \<le> c'" "c' < cw * bpp"
        then show "i \<noteq> r' * crs + c'"
          using h(3) [rule_format, of r' c'] by simp
      qed
      moreover have "\<not> (d \<le> i \<and> i < d + n)"
      proof
        assume a: "d \<le> i \<and> i < d + n"
        then have "j \<le> j \<and> j < ch \<and> 0 \<le> i - d \<and> i - d < cw * bpp"
          using True by (simp add: n_def)
        then have "i \<noteq> j * crs + (i - d)" by (rule h(3) [rule_format])
        then show False by (simp add: d_def)
      qed
      ultimately show ?thesis using nth1 [OF h(1) h(2)] by simp
    qed
    show ?thesis
    proof (intro exI [of _ out] conjI allI impI)
      show "cropRows src dest bpp rs x y cw ch crs j = Inr out" using step res by simp
      show "length out = length dest" using len len1 by simp
    next
      fix r c :: int
      assume "j \<le> r \<and> r < ch \<and> 0 \<le> c \<and> c < cw * bpp"
      then show "out ! nat (r * crs + c) = src ! nat ((y + r) * rs + x * bpp + c)"
        using inP [of r c] by simp
    next
      fix i :: int
      assume "0 \<le> i \<and> i < int (length dest)
                \<and> (\<forall>r c. j \<le> r \<and> r < ch \<and> 0 \<le> c \<and> c < cw * bpp \<longrightarrow> i \<noteq> r * crs + c)"
      then show "out ! nat i = dest ! nat i"
        using outP [of i] by (elim conjE)
    qed
  qed
qed

lemma cropImage_spec:
  assumes "0 \<le> x" "0 \<le> y" "0 \<le> cropWidth" "0 \<le> cropHeight" "0 \<le> bytesPerPixel"
    and "x + cropWidth \<le> originalWidth" "y + cropHeight \<le> originalHeight"
    and "originalWidth * bytesPerPixel \<le> rowSize"
    and "originalHeight * rowSize \<le> int (length inputPixelData)"
    and "originalHeight \<le> 2147483647"
    and "originalHeight * rowSize \<le> 2147483647"
    and "cropWidth * bytesPerPixel + 3 \<le> 2147483647"
    and "((cropWidth * bytesPerPixel + 3) AND NOT 3) * cropHeight \<le> 2147483647"
  shows "\<exists>cropped.
           cropImage inputPixelData croppedPixelData originalWidth originalHeight bytesPerPixel
             rowSize x y cropWidth cropHeight = Inr cropped
           \<and> int (length cropped) = ((cropWidth * bytesPerPixel + 3) AND NOT 3) * cropHeight
           \<and> (\<forall>i j byte. 0 \<le> i \<and> i < cropWidth \<and> 0 \<le> j \<and> j < cropHeight
                   \<and> 0 \<le> byte \<and> byte < bytesPerPixel \<longrightarrow>
                 cropped ! nat (j * ((cropWidth * bytesPerPixel + 3) AND NOT 3)
                                + i * bytesPerPixel + byte)
                   = inputPixelData ! nat ((y + j) * rowSize + (x + i) * bytesPerPixel + byte))"
proof -
  define crs where "crs = (cropWidth * bytesPerPixel + 3) AND NOT 3"
  have st: "rowStride cropWidth bytesPerPixel = crs" by (simp only: rowStride_def crs_def)
  have c1: "cropWidth * bytesPerPixel \<le> crs" using rowStride_ge [of cropWidth bytesPerPixel] st by simp
  have crs0: "0 \<le> crs" using c1 assms mult_nonneg_nonneg [of cropWidth bytesPerPixel] by linarith
  have n0: "0 \<le> crs * cropHeight" using crs0 assms by simp
  from resize_spec [OF n0]
  obtain resized where rz: "resize croppedPixelData (crs * cropHeight) = Inr resized"
    and lr: "int (length resized) = crs * cropHeight" by blast
  have w0: "0 \<le> originalWidth" using assms by linarith
  have "(x + cropWidth) * bytesPerPixel \<le> originalWidth * bytesPerPixel"
    using assms by (intro mult_right_mono) simp_all
  then have c2: "(x + cropWidth) * bytesPerPixel \<le> rowSize" using assms by linarith
  have rs0: "0 \<le> rowSize"
    using assms w0 mult_nonneg_nonneg [of originalWidth bytesPerPixel] by linarith
  have "(y + cropHeight) * rowSize \<le> originalHeight * rowSize"
    using assms rs0 by (intro mult_right_mono) simp_all
  then have c3: "(y + cropHeight) * rowSize \<le> int (length inputPixelData)" using assms by linarith
  have c4: "cropHeight * crs \<le> int (length resized)" using lr by (simp add: mult.commute)
  have c5: "y + cropHeight \<le> 2147483647" using assms(7,10) by linarith
  have "(y + cropHeight) * rowSize \<le> originalHeight * rowSize"
    using assms rs0 by (intro mult_right_mono) simp_all
  then have c6: "(y + cropHeight) * rowSize \<le> 2147483647" using assms(11) by linarith
  have c7: "cropHeight * crs \<le> 2147483647" using assms(13) by (simp add: crs_def mult.commute)
  have g1: "list_all is_int [cropWidth * bytesPerPixel, cropWidth * bytesPerPixel + 3]"
  proof -
    have "0 \<le> cropWidth * bytesPerPixel" using assms(3,5) by (rule mult_nonneg_nonneg)
    then show ?thesis using assms(12) by (simp add: is_int_def)
  qed
  have g2: "is_int (crs * cropHeight)" using n0 c7 by (simp add: is_int_def mult.commute)
  from cropRows_spec [OF order_refl assms(1,2,3,5) c1 c4 c2 c3 c5 c6 c7]
  obtain out where p: "cropRows inputPixelData resized bytesPerPixel rowSize x y cropWidth cropHeight crs 0 = Inr out
        \<and> length out = length resized \<and>
           (\<forall>r c. 0 \<le> r \<and> r < cropHeight \<and> 0 \<le> c \<and> c < cropWidth * bytesPerPixel \<longrightarrow>
              out ! nat (r * crs + c) = inputPixelData ! nat ((y + r) * rowSize + x * bytesPerPixel + c)) \<and>
           (\<forall>i. 0 \<le> i \<and> i < int (length resized)
                \<and> (\<forall>r c. 0 \<le> r \<and> r < cropHeight \<and> 0 \<le> c \<and> c < cropWidth * bytesPerPixel \<longrightarrow> i \<noteq> r * crs + c)
              \<longrightarrow> out ! nat i = resized ! nat i)" ..
  from p have res: "cropRows inputPixelData resized bytesPerPixel rowSize x y cropWidth cropHeight crs 0 = Inr out"
    by (elim conjE)
  from p have len: "length out = length resized" by (elim conjE)
  from p have inP: "\<forall>r c. 0 \<le> r \<and> r < cropHeight \<and> 0 \<le> c \<and> c < cropWidth * bytesPerPixel \<longrightarrow>
              out ! nat (r * crs + c) = inputPixelData ! nat ((y + r) * rowSize + x * bytesPerPixel + c)"
    by (elim conjE)
  have r: "cropImage inputPixelData croppedPixelData originalWidth originalHeight bytesPerPixel
             rowSize x y cropWidth cropHeight = Inr out"
    using rz res g1 g2 by (simp add: cropImage_def Let_def st)
  have pix: "out ! nat (j * crs + i * bytesPerPixel + byte)
                   = inputPixelData ! nat ((y + j) * rowSize + (x + i) * bytesPerPixel + byte)"
    if h: "0 \<le> i \<and> i < cropWidth \<and> 0 \<le> j \<and> j < cropHeight \<and> 0 \<le> byte \<and> byte < bytesPerPixel"
    for i j byte
  proof -
    have "i * bytesPerPixel + byte < cropWidth * bytesPerPixel" "0 \<le> i * bytesPerPixel + byte"
      using pix_bound [of i cropWidth byte bytesPerPixel] pix_nonneg [of i byte bytesPerPixel] h assms
      by simp_all
    then have "0 \<le> j \<and> j < cropHeight \<and> 0 \<le> i * bytesPerPixel + byte
        \<and> i * bytesPerPixel + byte < cropWidth * bytesPerPixel"
      using h by simp
    then have "out ! nat (j * crs + (i * bytesPerPixel + byte))
        = inputPixelData ! nat ((y + j) * rowSize + x * bytesPerPixel + (i * bytesPerPixel + byte))"
      by (rule inP [rule_format])
    then show ?thesis by (simp add: algebra_simps)
  qed
  show ?thesis
    unfolding crs_def [symmetric]
  proof (intro exI [of _ out] conjI allI impI)
    show "cropImage inputPixelData croppedPixelData originalWidth originalHeight bytesPerPixel
             rowSize x y cropWidth cropHeight = Inr out" by (rule r)
    show "int (length out) = crs * cropHeight" using len lr by simp
  next
    fix i j byte :: int
    assume "0 \<le> i \<and> i < cropWidth \<and> 0 \<le> j \<and> j < cropHeight \<and> 0 \<le> byte \<and> byte < bytesPerPixel"
    then show "out ! nat (j * crs + i * bytesPerPixel + byte)
                   = inputPixelData ! nat ((y + j) * rowSize + (x + i) * bytesPerPixel + byte)"
      by (rule pix)
  qed
qed

section \<open>Cropping copies the region\<close>

text \<open>
  C2. The source buffer holds \<open>originalHeight\<close> rows of \<open>rowSize\<close> bytes, each with room
  for \<open>originalWidth\<close> pixels, and the rectangle (coordinates and sizes are natural
  numbers) satisfies \<open>x + cropWidth \<le> originalWidth\<close> and
  \<open>y + cropHeight \<le> originalHeight\<close>. The parameters are values of \<^verbatim>\<open>int\<close>, and so are the
  size \<open>originalHeight * rowSize\<close> of the source rows, the sum
  \<open>cropWidth * bytesPerPixel + 3\<close> and the size of the new buffer. Then \<^verbatim>\<open>cropImage\<close>
  returns a buffer of \<open>cropHeight\<close> rows with the stride
  \<^verbatim>\<open>((cropWidth * bytesPerPixel + 3) & (~3))\<close>, and every byte of its pixel at \<open>(i, j)\<close> is
  the byte at the same position of the source pixel at \<open>(x + i, y + j)\<close>, for all
  \<open>i < cropWidth\<close> and \<open>j < cropHeight\<close>.
\<close>

theorem crop_copies_region:
  assumes "0 \<le> x" "0 \<le> y" "0 \<le> cropWidth" "0 \<le> cropHeight" "0 \<le> bytesPerPixel"
    and "x + cropWidth \<le> originalWidth" "y + cropHeight \<le> originalHeight"
    and "originalWidth * bytesPerPixel \<le> rowSize"
    and "originalHeight * rowSize \<le> int (length inputPixelData)"
    and "is_int originalWidth" "is_int originalHeight" "is_int bytesPerPixel" "is_int rowSize"
    and "originalHeight * rowSize \<le> 2147483647"
    and "cropWidth * bytesPerPixel + 3 \<le> 2147483647"
    and "((cropWidth * bytesPerPixel + 3) AND NOT 3) * cropHeight \<le> 2147483647"
  shows "\<exists>cropped.
           cropImage inputPixelData croppedPixelData originalWidth originalHeight bytesPerPixel
             rowSize x y cropWidth cropHeight = Inr cropped
           \<and> int (length cropped) = ((cropWidth * bytesPerPixel + 3) AND NOT 3) * cropHeight
           \<and> (\<forall>i j byte. 0 \<le> i \<and> i < cropWidth \<and> 0 \<le> j \<and> j < cropHeight
                   \<and> 0 \<le> byte \<and> byte < bytesPerPixel \<longrightarrow>
                 cropped ! nat (j * ((cropWidth * bytesPerPixel + 3) AND NOT 3)
                                + i * bytesPerPixel + byte)
                   = inputPixelData ! nat ((y + j) * rowSize + (x + i) * bytesPerPixel + byte))"
proof -
  have hmax: "originalHeight \<le> 2147483647" using assms(11) by (simp add: is_int_def)
  show ?thesis
    by (rule cropImage_spec [OF assms(1-9) hmax assms(14-16)])
qed

text \<open>
  C2, witness: the two right columns of a 24-bit image of three by two pixels. The stride
  of the new buffer is 8 for a row of 6 bytes, and its length is 16.
\<close>

theorem crop_copies_region_witness:
  "(0 :: int) \<le> 1 \<and> (0 :: int) \<le> 0 \<and> (0 :: int) \<le> 2 \<and> (0 :: int) \<le> 2 \<and> (0 :: int) \<le> 3
   \<and> (1 :: int) + 2 \<le> 3 \<and> (0 :: int) + 2 \<le> 2 \<and> (3 :: int) * 3 \<le> 12
   \<and> (2 :: int) * 12 \<le> int (length [1, 2, 3, 4, 5, 6, 7, 8, 9, 0, 0, 0, 11, 12, 13, 14, 15, 16, 17, 18, 19, 0, 0, 0 :: u8])
   \<and> is_int 3 \<and> is_int 2 \<and> is_int 3 \<and> is_int 12
   \<and> (2 :: int) * 12 \<le> 2147483647
   \<and> (2 :: int) * 3 + 3 \<le> 2147483647
   \<and> (((2 :: int) * 3 + 3) AND NOT 3) * 2 \<le> 2147483647
   \<and> ((2 :: int) * 3 + 3) AND NOT 3 = 8
   \<and> cropImage [1, 2, 3, 4, 5, 6, 7, 8, 9, 0, 0, 0, 11, 12, 13, 14, 15, 16, 17, 18, 19, 0, 0, 0] [] 3 2 3 12 1 0 2 2
       = Inr [4, 5, 6, 7, 8, 9, 0, 0, 14, 15, 16, 17, 18, 19, 0, 0]
   \<and> (\<exists>cropped.
           cropImage [1, 2, 3, 4, 5, 6, 7, 8, 9, 0, 0, 0, 11, 12, 13, 14, 15, 16, 17, 18, 19, 0, 0, 0] [] 3 2 3 12 1 0 2 2 = Inr cropped
           \<and> int (length cropped) = (((2 :: int) * 3 + 3) AND NOT 3) * 2
           \<and> (\<forall>i j byte. 0 \<le> i \<and> i < 2 \<and> 0 \<le> j \<and> j < 2
                   \<and> 0 \<le> byte \<and> byte < 3 \<longrightarrow>
                 cropped ! nat (j * (((2 :: int) * 3 + 3) AND NOT 3) + i * 3 + byte)
                   = [1, 2, 3, 4, 5, 6, 7, 8, 9, 0, 0, 0, 11, 12, 13, 14, 15, 16, 17, 18, 19, 0, 0, 0 :: u8] ! nat ((0 + j) * 12 + (1 + i) * 3 + byte)))"
proof -
  have h: "(0 :: int) \<le> 1" "(0 :: int) \<le> 0" "(0 :: int) \<le> 2" "(0 :: int) \<le> 3"
    "(1 :: int) + 2 \<le> 3" "(0 :: int) + 2 \<le> 2" "(3 :: int) * 3 \<le> 12"
    "(2 :: int) * 12 \<le> int (length [1, 2, 3, 4, 5, 6, 7, 8, 9, 0, 0, 0, 11, 12, 13, 14, 15, 16, 17, 18, 19, 0, 0, 0 :: u8])"
    "is_int 3" "is_int 2" "is_int 12"
    "(2 :: int) * 12 \<le> 2147483647"
    "(2 :: int) * 3 + 3 \<le> 2147483647"
    by (simp_all add: is_int_def)
  have a: "((2 :: int) * 3 + 3) AND NOT 3 = 8" by simp
  have s: "(((2 :: int) * 3 + 3) AND NOT 3) * 2 \<le> 2147483647" unfolding a by simp
  have e: "cropImage [1, 2, 3, 4, 5, 6, 7, 8, 9, 0, 0, 0, 11, 12, 13, 14, 15, 16, 17, 18, 19, 0, 0, 0] [] 3 2 3 12 1 0 2 2
       = Inr [4, 5, 6, 7, 8, 9, 0, 0, 14, 15, 16, 17, 18, 19, 0, 0]"
    by code_simp
  from crop_copies_region [OF h(1) h(2) h(3) h(3) h(4) h(5) h(6) h(7) h(8) h(9) h(10) h(9) h(11) h(12) h(13) s]
    h a s e
  show ?thesis by (intro conjI)
qed

section \<open>Headers written back as they were read\<close>












section \<open>Decoding\<close>

lemma c_div_24_32: "c_div 24 8 = 3" "c_div 32 8 = 4"
  by (simp_all add: c_div_def)

lemma readPixelData_length: "length (readPixelData input off n) = n"
  by (simp add: readPixelData_def Let_def)

lemma decode_Inr:
  assumes "decode uninit input = Inr d"
  shows "inFileHeader d = readFileHeader (headerMemory uninit input)"
    and "inInfoHeader d = readInfoHeader (headerMemory uninit input)"
    and "inWidth d = sint (biWidth (inInfoHeader d))"
    and "inHeight d = sint (biHeight (inInfoHeader d))"
    and "inBytesPerPixel d = 3 \<or> inBytesPerPixel d = 4"
    and "inRowSize d = rowStride (inWidth d) (inBytesPerPixel d)"
    and "is_int (inWidth d * inBytesPerPixel d + 3)"
    and "is_int (inRowSize d * inHeight d)"
    and "0 \<le> inRowSize d * inHeight d"
    and "length (inPixelData d) = nat (inRowSize d * inHeight d)"
    and "inPixelData d =
           (if 54 \<le> length input
            then readPixelData input (unat (bfOffBits (inFileHeader d)))
                   (nat (inRowSize d * inHeight d))
            else replicate (nat (inRowSize d * inHeight d)) 0)"
  using assms
  by (auto simp add: decode_def Let_def c_div_24_32 readPixelData_length split: if_splits)


section \<open>A region that exceeds the image\<close>

text \<open>
  C5. \<open>d\<close> is the decoded source image. The coordinates and sizes of the rectangle and
  the two sums of the check are values of \<^verbatim>\<open>int\<close>.
  When the rectangle exceeds the image to the right or at the bottom, the program ends with
  the error of the bounds check: \<^verbatim>\<open>cropImage\<close> is not called, nothing is clamped, and the
  output file is not opened.
\<close>

theorem crop_out_of_bounds:
  assumes "decode uninit input = Inr d"
    and "is_int cropX" "is_int cropY" "is_int cropWidth" "is_int cropHeight"
    and "is_int (cropX + cropWidth)" "is_int (cropY + cropHeight)"
    and "cropX + cropWidth > inWidth d \<or> cropY + cropHeight > inHeight d"
  shows "cropPipeline uninit input cropX cropY cropWidth cropHeight = Inl BoundsError"
  using assms(1,6,7,8) by (auto simp add: cropPipeline_def)

text \<open>
  C5, witness: a 24-bit image of one pixel and the region that \<^verbatim>\<open>main\<close> fixes; the
  program ends without an output file.
\<close>

theorem crop_out_of_bounds_witness:
  "decode []
      [66, 77, 58, 0, 0, 0, 0, 0, 0, 0, 54, 0, 0, 0, 40, 0, 0, 0,
      1, 0, 0, 0, 1, 0, 0, 0, 1, 0, 24, 0, 0, 0, 0, 0, 4, 0,
      0, 0, 0, 0, 0, 0, 0, 0, 0, 0, 0, 0, 0, 0, 0, 0, 0, 0,
      1, 2, 3, 0]
     = Inr \<lparr>inFileHeader = \<lparr>bfType = 0x4D42, bfSize = 58, bfReserved1 = 0, bfReserved2 = 0, bfOffBits = 54\<rparr>,
         inInfoHeader = \<lparr>biSize = 40, biWidth = 1, biHeight = 1, biPlanes = 1, biBitCount = 24, biCompression = 0,
           biSizeImage = 4, biXPelsPerMeter = 0, biYPelsPerMeter = 0, biClrUsed = 0,
           biClrImportant = 0\<rparr>,
         inWidth = 1, inHeight = 1, inBytesPerPixel = 3, inRowSize = 4,
         inPixelData = [1, 2, 3, 0]\<rparr>
   \<and> is_int 120 \<and> is_int 150 \<and> is_int 100
   \<and> is_int (120 + 100) \<and> is_int (150 + 100)
   \<and> ((120 :: int) + 100 > 1 \<or> (150 :: int) + 100 > 1)
   \<and> cropPipeline []
      [66, 77, 58, 0, 0, 0, 0, 0, 0, 0, 54, 0, 0, 0, 40, 0, 0, 0,
      1, 0, 0, 0, 1, 0, 0, 0, 1, 0, 24, 0, 0, 0, 0, 0, 4, 0,
      0, 0, 0, 0, 0, 0, 0, 0, 0, 0, 0, 0, 0, 0, 0, 0, 0, 0,
      1, 2, 3, 0]
      120 150 100 100 = Inl BoundsError
   \<and> crop_main []
      [66, 77, 58, 0, 0, 0, 0, 0, 0, 0, 54, 0, 0, 0, 40, 0, 0, 0,
      1, 0, 0, 0, 1, 0, 0, 0, 1, 0, 24, 0, 0, 0, 0, 0, 4, 0,
      0, 0, 0, 0, 0, 0, 0, 0, 0, 0, 0, 0, 0, 0, 0, 0, 0, 0,
      1, 2, 3, 0]
     = Inl BoundsError"
proof -
  have e: "decode []
      [66, 77, 58, 0, 0, 0, 0, 0, 0, 0, 54, 0, 0, 0, 40, 0, 0, 0,
      1, 0, 0, 0, 1, 0, 0, 0, 1, 0, 24, 0, 0, 0, 0, 0, 4, 0,
      0, 0, 0, 0, 0, 0, 0, 0, 0, 0, 0, 0, 0, 0, 0, 0, 0, 0,
      1, 2, 3, 0]
     = Inr \<lparr>inFileHeader = \<lparr>bfType = 0x4D42, bfSize = 58, bfReserved1 = 0, bfReserved2 = 0, bfOffBits = 54\<rparr>,
         inInfoHeader = \<lparr>biSize = 40, biWidth = 1, biHeight = 1, biPlanes = 1, biBitCount = 24, biCompression = 0,
           biSizeImage = 4, biXPelsPerMeter = 0, biYPelsPerMeter = 0, biClrUsed = 0,
           biClrImportant = 0\<rparr>,
         inWidth = 1, inHeight = 1, inBytesPerPixel = 3, inRowSize = 4,
         inPixelData = [1, 2, 3, 0]\<rparr>"
    by code_simp
  have p: "is_int 120" "is_int 150" "is_int 100"
    by (simp_all add: is_int_def)
  have h: "is_int (120 + 100)" "is_int (150 + 100)"
    "(120 :: int) + 100 > 1 \<or> (150 :: int) + 100 > 1"
    by (simp_all add: is_int_def)
  have h': "(120 :: int) + 100 > inWidth \<lparr>inFileHeader = \<lparr>bfType = 0x4D42, bfSize = 58, bfReserved1 = 0, bfReserved2 = 0, bfOffBits = 54\<rparr>,
         inInfoHeader = \<lparr>biSize = 40, biWidth = 1, biHeight = 1, biPlanes = 1, biBitCount = 24, biCompression = 0,
           biSizeImage = 4, biXPelsPerMeter = 0, biYPelsPerMeter = 0, biClrUsed = 0,
           biClrImportant = 0\<rparr>,
         inWidth = 1, inHeight = 1, inBytesPerPixel = 3, inRowSize = 4,
         inPixelData = [1, 2, 3, 0]\<rparr>
      \<or> (150 :: int) + 100 > inHeight \<lparr>inFileHeader = \<lparr>bfType = 0x4D42, bfSize = 58, bfReserved1 = 0, bfReserved2 = 0, bfOffBits = 54\<rparr>,
         inInfoHeader = \<lparr>biSize = 40, biWidth = 1, biHeight = 1, biPlanes = 1, biBitCount = 24, biCompression = 0,
           biSizeImage = 4, biXPelsPerMeter = 0, biYPelsPerMeter = 0, biClrUsed = 0,
           biClrImportant = 0\<rparr>,
         inWidth = 1, inHeight = 1, inBytesPerPixel = 3, inRowSize = 4,
         inPixelData = [1, 2, 3, 0]\<rparr>"
    by simp
  note r = crop_out_of_bounds [OF e p(1) p(2) p(3) p(3) h(1) h(2) h']
  have m: "crop_main []
      [66, 77, 58, 0, 0, 0, 0, 0, 0, 0, 54, 0, 0, 0, 40, 0, 0, 0,
      1, 0, 0, 0, 1, 0, 0, 0, 1, 0, 24, 0, 0, 0, 0, 0, 4, 0,
      0, 0, 0, 0, 0, 0, 0, 0, 0, 0, 0, 0, 0, 0, 0, 0, 0, 0,
      1, 2, 3, 0]
     = Inl BoundsError"
    unfolding crop_main_def r by simp
  from r e p h m show ?thesis by (intro conjI)
qed

section \<open>Decoding and encoding without a transform\<close>




section \<open>Input with less pixel data than the headers announce\<close>




section \<open>The headers of the cropped image\<close>

lemma uint_word_of_int_u32:
  "0 \<le> a \<Longrightarrow> a \<le> 2147483647 \<Longrightarrow> uint (word_of_int a :: u32) = a"
  by (simp add: uint_word_of_int_eq take_bit_int_eq_self)

lemma sint_u32_le: "sint (w :: u32) \<le> 2147483647"
  using sint_lt [of w] by simp

lemma rowStride_mono:
  assumes "a \<le> b"
  shows "(a + 3) AND NOT 3 \<le> (b + 3) AND NOT (3 :: int)"
proof -
  have "(a + 3) div 4 \<le> (b + 3) div 4" using assms by (intro zdiv_mono1) simp_all
  then show ?thesis unfolding and_not_3 by simp
qed

lemma stride_nonneg: "0 \<le> a \<Longrightarrow> 0 \<le> (a + 3) AND NOT (3 :: int)"
  unfolding and_not_3 by simp

text \<open>
  A region inside a decoded image passes the check of the bounds, and \<^verbatim>\<open>cropImage\<close> returns
  a buffer for it: the decoding has established every bound that the loop needs.
\<close>

lemma cropPipeline_Inr:
  assumes "decode uninit input = Inr d"
    and "0 \<le> cropX" "0 \<le> cropY" "0 \<le> cropWidth" "0 \<le> cropHeight"
    and "cropX + cropWidth \<le> inWidth d" "cropY + cropHeight \<le> inHeight d"
  shows "\<exists>cropped.
           cropPipeline uninit input cropX cropY cropWidth cropHeight
             = Inr \<lparr>outFileHeader = (inFileHeader d)
                      \<lparr>bfSize := word_of_int (rowStride cropWidth (inBytesPerPixel d) * cropHeight)
                                  + bfOffBits (inFileHeader d)\<rparr>,
                    outInfoHeader = (inInfoHeader d)
                      \<lparr>biWidth := word_of_int cropWidth, biHeight := word_of_int cropHeight,
                       biSizeImage := word_of_int (rowStride cropWidth (inBytesPerPixel d) * cropHeight)\<rparr>,
                    outPixelData = cropped\<rparr>"
    and "cropWidth \<le> 2147483647" "cropHeight \<le> 2147483647"
    and "0 \<le> rowStride cropWidth (inBytesPerPixel d) * cropHeight"
    and "rowStride cropWidth (inBytesPerPixel d) * cropHeight \<le> 2147483647"
proof -
  note dd = decode_Inr [OF assms(1)]
  define W H bpp rs where "W = inWidth d" and "H = inHeight d"
    and "bpp = inBytesPerPixel d" and "rs = inRowSize d"
  define crs where "crs = (cropWidth * bpp + 3) AND NOT 3"
  have st: "rowStride cropWidth bpp = crs" by (simp only: rowStride_def crs_def)
  have rsd: "rs = (W * bpp + 3) AND NOT 3" using dd(6) by (simp add: rowStride_def W_def bpp_def rs_def)
  have bpp0: "0 \<le> bpp" using dd(5) by (auto simp add: bpp_def)
  have W0: "0 \<le> W" and H0: "0 \<le> H" using assms(2-7) by (simp_all add: W_def H_def)
  have Wm: "W \<le> 2147483647" and Hm: "H \<le> 2147483647"
    using dd(3,4) sint_u32_le by (simp_all add: W_def H_def)
  have cwW: "cropWidth \<le> W" and chH: "cropHeight \<le> H" using assms(2-7) by (simp_all add: W_def H_def)
  have wb: "cropWidth * bpp \<le> W * bpp" using cwW bpp0 by (rule mult_right_mono)
  have cb0: "0 \<le> cropWidth * bpp" using assms(4) bpp0 by (rule mult_nonneg_nonneg)
  have h8: "W * bpp \<le> rs" using rowStride_ge [of W bpp] dd(6) by (simp add: W_def bpp_def rs_def)
  have rs0: "0 \<le> rs" using h8 mult_nonneg_nonneg [OF W0 bpp0] by linarith
  have h9: "H * rs \<le> int (length (inPixelData d))"
    using dd(9,10) by (simp add: H_def rs_def mult.commute)
  have h11: "H * rs \<le> 2147483647" using dd(8) by (simp add: is_int_def H_def rs_def mult.commute)
  have h12: "cropWidth * bpp + 3 \<le> 2147483647"
    using wb dd(7) by (simp add: is_int_def W_def bpp_def)
  have crs0: "0 \<le> crs" unfolding crs_def using cb0 by (rule stride_nonneg)
  have crsrs: "crs \<le> rs" unfolding crs_def rsd using wb by (rule rowStride_mono)
  have "crs * cropHeight \<le> rs * cropHeight" using crsrs assms(5) by (rule mult_right_mono)
  also have "\<dots> \<le> rs * H" using chH rs0 by (rule mult_left_mono)
  finally have cr: "crs * cropHeight \<le> rs * H" .
  then have h13: "crs * cropHeight \<le> 2147483647" using h11 by (simp add: mult.commute)
  have n0: "0 \<le> crs * cropHeight" using crs0 assms(5) by (rule mult_nonneg_nonneg)
  have g1: "is_int (cropX + cropWidth)" "is_int (cropY + cropHeight)"
    using assms(2-7) Wm Hm by (simp_all add: is_int_def W_def H_def)
  from cropImage_spec [OF assms(2) assms(3) assms(4) assms(5) bpp0
      assms(6) [folded W_def] assms(7) [folded H_def] h8 h9 Hm h11 h12 h13 [unfolded crs_def]]
  obtain cropped where
    ci: "cropImage (inPixelData d) [] W H bpp rs cropX cropY cropWidth cropHeight = Inr cropped"
    by blast
  have "cropPipeline uninit input cropX cropY cropWidth cropHeight
             = Inr \<lparr>outFileHeader = (inFileHeader d)
                      \<lparr>bfSize := word_of_int (rowStride cropWidth (inBytesPerPixel d) * cropHeight)
                                  + bfOffBits (inFileHeader d)\<rparr>,
                    outInfoHeader = (inInfoHeader d)
                      \<lparr>biWidth := word_of_int cropWidth, biHeight := word_of_int cropHeight,
                       biSizeImage := word_of_int (rowStride cropWidth (inBytesPerPixel d) * cropHeight)\<rparr>,
                    outPixelData = cropped\<rparr>"
    using assms(1) g1 assms(6,7) ci [unfolded W_def H_def bpp_def rs_def]
    by (simp add: cropPipeline_def Let_def)
  then show "\<exists>cropped.
           cropPipeline uninit input cropX cropY cropWidth cropHeight
             = Inr \<lparr>outFileHeader = (inFileHeader d)
                      \<lparr>bfSize := word_of_int (rowStride cropWidth (inBytesPerPixel d) * cropHeight)
                                  + bfOffBits (inFileHeader d)\<rparr>,
                    outInfoHeader = (inInfoHeader d)
                      \<lparr>biWidth := word_of_int cropWidth, biHeight := word_of_int cropHeight,
                       biSizeImage := word_of_int (rowStride cropWidth (inBytesPerPixel d) * cropHeight)\<rparr>,
                    outPixelData = cropped\<rparr>" ..
  show "cropWidth \<le> 2147483647" using cwW Wm by linarith
  show "cropHeight \<le> 2147483647" using chH Hm by linarith
  show "0 \<le> rowStride cropWidth (inBytesPerPixel d) * cropHeight"
    using n0 st by (simp add: bpp_def)
  show "rowStride cropWidth (inBytesPerPixel d) * cropHeight \<le> 2147483647"
    using h13 st by (simp add: bpp_def)
qed

text \<open>
  C9. \<open>d\<close> is the decoded input and the region (natural numbers) lies inside the image. Then
  the program reaches its \<^verbatim>\<open>write\<close> calls, and the headers that it writes have the width and
  the height of the region, the image size \<^verbatim>\<open>((cropWidth * bytesPerPixel + 3) & (~3)) * cropHeight\<close>,
  and as file size the sum of the offset of the pixel data and the new image size, computed
  in the 32 bits of the field; the sum is the sum of the numbers when it is below \<open>2\<^sup>3\<^sup>2\<close>.
  Every other field is the field of the input.
\<close>

theorem crop_headers:
  assumes "decode uninit input = Inr d"
    and "0 \<le> cropX" "0 \<le> cropY" "0 \<le> cropWidth" "0 \<le> cropHeight"
    and "cropX + cropWidth \<le> inWidth d" "cropY + cropHeight \<le> inHeight d"
  shows "\<exists>out.
           cropPipeline uninit input cropX cropY cropWidth cropHeight = Inr out
           \<and> uint (biWidth (outInfoHeader out)) = cropWidth
           \<and> uint (biHeight (outInfoHeader out)) = cropHeight
           \<and> uint (biSizeImage (outInfoHeader out))
               = ((cropWidth * inBytesPerPixel d + 3) AND NOT 3) * cropHeight
           \<and> bfSize (outFileHeader out)
               = bfOffBits (inFileHeader d) + biSizeImage (outInfoHeader out)
           \<and> (uint (bfOffBits (inFileHeader d))
                + ((cropWidth * inBytesPerPixel d + 3) AND NOT 3) * cropHeight < 4294967296
              \<longrightarrow> uint (bfSize (outFileHeader out))
                    = uint (bfOffBits (inFileHeader d))
                      + ((cropWidth * inBytesPerPixel d + 3) AND NOT 3) * cropHeight)
           \<and> bfType (outFileHeader out) = bfType (inFileHeader d)
           \<and> bfReserved1 (outFileHeader out) = bfReserved1 (inFileHeader d)
           \<and> bfReserved2 (outFileHeader out) = bfReserved2 (inFileHeader d)
           \<and> bfOffBits (outFileHeader out) = bfOffBits (inFileHeader d)
           \<and> biSize (outInfoHeader out) = biSize (inInfoHeader d)
           \<and> biPlanes (outInfoHeader out) = biPlanes (inInfoHeader d)
           \<and> biBitCount (outInfoHeader out) = biBitCount (inInfoHeader d)
           \<and> biCompression (outInfoHeader out) = biCompression (inInfoHeader d)
           \<and> biXPelsPerMeter (outInfoHeader out) = biXPelsPerMeter (inInfoHeader d)
           \<and> biYPelsPerMeter (outInfoHeader out) = biYPelsPerMeter (inInfoHeader d)
           \<and> biClrUsed (outInfoHeader out) = biClrUsed (inInfoHeader d)
           \<and> biClrImportant (outInfoHeader out) = biClrImportant (inInfoHeader d)"
proof -
  define n where "n = ((cropWidth * inBytesPerPixel d + 3) AND NOT 3) * cropHeight"
  have st: "rowStride cropWidth (inBytesPerPixel d) * cropHeight = n"
    by (simp only: rowStride_def n_def)
  note p = cropPipeline_Inr [OF assms, unfolded st]
  from p(1) obtain cropped where
    r: "cropPipeline uninit input cropX cropY cropWidth cropHeight
          = Inr \<lparr>outFileHeader = (inFileHeader d)
                   \<lparr>bfSize := word_of_int n + bfOffBits (inFileHeader d)\<rparr>,
                 outInfoHeader = (inInfoHeader d)
                   \<lparr>biWidth := word_of_int cropWidth, biHeight := word_of_int cropHeight,
                    biSizeImage := word_of_int n\<rparr>,
                 outPixelData = cropped\<rparr>" ..
  have w: "uint (word_of_int cropWidth :: u32) = cropWidth"
    using assms(4) p(2) by (rule uint_word_of_int_u32)
  have h: "uint (word_of_int cropHeight :: u32) = cropHeight"
    using assms(5) p(3) by (rule uint_word_of_int_u32)
  have s: "uint (word_of_int n :: u32) = n"
    using p(4) p(5) by (rule uint_word_of_int_u32)
  have f: "uint (word_of_int n + bfOffBits (inFileHeader d))
             = uint (bfOffBits (inFileHeader d)) + n"
    if "uint (bfOffBits (inFileHeader d)) + n < 4294967296"
  proof -
    have "uint (word_of_int n + bfOffBits (inFileHeader d))
            = (uint (word_of_int n :: u32) + uint (bfOffBits (inFileHeader d))) mod 4294967296"
      by (simp add: uint_word_ariths)
    also have "\<dots> = (n + uint (bfOffBits (inFileHeader d))) mod 4294967296" by (simp only: s)
    also have "\<dots> = n + uint (bfOffBits (inFileHeader d))"
      using that p(4) by (intro mod_pos_pos_trivial) simp_all
    finally show ?thesis by simp
  qed
  show ?thesis
    unfolding n_def [symmetric]
    by (rule exI, intro conjI impI, rule r) (simp_all add: w h s f)
qed

text \<open>
  C9, witness: the right pixel of a 24-bit image of two pixels in one row. The new row has
  four bytes, and the new file 58.
\<close>

theorem crop_headers_witness:
  "decode []
      [66, 77, 62, 0, 0, 0, 0, 0, 0, 0, 54, 0, 0, 0, 40, 0, 0, 0,
      2, 0, 0, 0, 1, 0, 0, 0, 1, 0, 24, 0, 0, 0, 0, 0, 8, 0,
      0, 0, 0, 0, 0, 0, 0, 0, 0, 0, 0, 0, 0, 0, 0, 0, 0, 0,
      1, 2, 3, 4, 5, 6, 0, 0]
     = Inr \<lparr>inFileHeader = \<lparr>bfType = 0x4D42, bfSize = 62, bfReserved1 = 0, bfReserved2 = 0, bfOffBits = 54\<rparr>,
         inInfoHeader = \<lparr>biSize = 40, biWidth = 2, biHeight = 1, biPlanes = 1, biBitCount = 24, biCompression = 0,
           biSizeImage = 8, biXPelsPerMeter = 0, biYPelsPerMeter = 0, biClrUsed = 0,
           biClrImportant = 0\<rparr>,
         inWidth = 2, inHeight = 1, inBytesPerPixel = 3, inRowSize = 8,
         inPixelData = [1, 2, 3, 4, 5, 6, 0, 0]\<rparr>
   \<and> (0 :: int) \<le> 1 \<and> (0 :: int) \<le> 0 \<and> (1 :: int) + 1 \<le> 2 \<and> (0 :: int) + 1 \<le> 1
   \<and> ((1 :: int) * 3 + 3) AND NOT 3 = 4
   \<and> cropPipeline []
      [66, 77, 62, 0, 0, 0, 0, 0, 0, 0, 54, 0, 0, 0, 40, 0, 0, 0,
      2, 0, 0, 0, 1, 0, 0, 0, 1, 0, 24, 0, 0, 0, 0, 0, 8, 0,
      0, 0, 0, 0, 0, 0, 0, 0, 0, 0, 0, 0, 0, 0, 0, 0, 0, 0,
      1, 2, 3, 4, 5, 6, 0, 0]
      1 0 1 1
     = Inr \<lparr>outFileHeader = \<lparr>bfType = 0x4D42, bfSize = 58, bfReserved1 = 0, bfReserved2 = 0, bfOffBits = 54\<rparr>,
            outInfoHeader = \<lparr>biSize = 40, biWidth = 1, biHeight = 1, biPlanes = 1, biBitCount = 24, biCompression = 0,
           biSizeImage = 4, biXPelsPerMeter = 0, biYPelsPerMeter = 0, biClrUsed = 0,
           biClrImportant = 0\<rparr>,
            outPixelData = [4, 5, 6, 0]\<rparr>
   \<and> (\<exists>out.
           cropPipeline [] 
      [66, 77, 62, 0, 0, 0, 0, 0, 0, 0, 54, 0, 0, 0, 40, 0, 0, 0,
      2, 0, 0, 0, 1, 0, 0, 0, 1, 0, 24, 0, 0, 0, 0, 0, 8, 0,
      0, 0, 0, 0, 0, 0, 0, 0, 0, 0, 0, 0, 0, 0, 0, 0, 0, 0,
      1, 2, 3, 4, 5, 6, 0, 0]
             1 0 1 1 = Inr out
           \<and> uint (biWidth (outInfoHeader out)) = 1
           \<and> uint (biHeight (outInfoHeader out)) = 1
           \<and> uint (biSizeImage (outInfoHeader out)) = (((1 :: int) * 3 + 3) AND NOT 3) * 1
           \<and> bfSize (outFileHeader out) = 54 + biSizeImage (outInfoHeader out)
           \<and> (uint (54 :: u32) + (((1 :: int) * 3 + 3) AND NOT 3) * 1 < 4294967296
              \<longrightarrow> uint (bfSize (outFileHeader out))
                    = uint (54 :: u32) + (((1 :: int) * 3 + 3) AND NOT 3) * 1)
           \<and> bfType (outFileHeader out) = 0x4D42
           \<and> bfReserved1 (outFileHeader out) = 0
           \<and> bfReserved2 (outFileHeader out) = 0
           \<and> bfOffBits (outFileHeader out) = 54
           \<and> biSize (outInfoHeader out) = 40
           \<and> biPlanes (outInfoHeader out) = 1
           \<and> biBitCount (outInfoHeader out) = 24
           \<and> biCompression (outInfoHeader out) = 0
           \<and> biXPelsPerMeter (outInfoHeader out) = 0
           \<and> biYPelsPerMeter (outInfoHeader out) = 0
           \<and> biClrUsed (outInfoHeader out) = 0
           \<and> biClrImportant (outInfoHeader out) = 0)"
proof -
  let ?input = "[66, 77, 62, 0, 0, 0, 0, 0, 0, 0, 54, 0, 0, 0, 40, 0, 0, 0,
      2, 0, 0, 0, 1, 0, 0, 0, 1, 0, 24, 0, 0, 0, 0, 0, 8, 0,
      0, 0, 0, 0, 0, 0, 0, 0, 0, 0, 0, 0, 0, 0, 0, 0, 0, 0,
      1, 2, 3, 4, 5, 6, 0, 0]"
  let ?d = "\<lparr>inFileHeader = \<lparr>bfType = 0x4D42, bfSize = 62, bfReserved1 = 0, bfReserved2 = 0, bfOffBits = 54\<rparr>,
         inInfoHeader = \<lparr>biSize = 40, biWidth = 2, biHeight = 1, biPlanes = 1, biBitCount = 24, biCompression = 0,
           biSizeImage = 8, biXPelsPerMeter = 0, biYPelsPerMeter = 0, biClrUsed = 0,
           biClrImportant = 0\<rparr>,
         inWidth = 2, inHeight = 1, inBytesPerPixel = 3, inRowSize = 8,
         inPixelData = [1, 2, 3, 4, 5, 6, 0, 0]\<rparr>"
  have e: "decode [] ?input = Inr ?d"
    by code_simp
  have h: "(0 :: int) \<le> 1" "(0 :: int) \<le> 0" "(1 :: int) + 1 \<le> 2" "(0 :: int) + 1 \<le> 1"
    "((1 :: int) * 3 + 3) AND NOT 3 = 4"
    by simp_all
  have h': "(1 :: int) + 1 \<le> inWidth ?d" "(0 :: int) + 1 \<le> inHeight ?d"
    by simp_all
  have c: "cropPipeline [] ?input 1 0 1 1
     = Inr \<lparr>outFileHeader = \<lparr>bfType = 0x4D42, bfSize = 58, bfReserved1 = 0, bfReserved2 = 0, bfOffBits = 54\<rparr>,
            outInfoHeader = \<lparr>biSize = 40, biWidth = 1, biHeight = 1, biPlanes = 1, biBitCount = 24, biCompression = 0,
           biSizeImage = 4, biXPelsPerMeter = 0, biYPelsPerMeter = 0, biClrUsed = 0,
           biClrImportant = 0\<rparr>,
            outPixelData = [4, 5, 6, 0]\<rparr>"
    by code_simp
  from crop_headers [OF e h(1) h(2) h(1) h(1) h'(1) h'(2)]
  have x: "(\<exists>out.
             cropPipeline [] ?input 1 0 1 1 = Inr out
             \<and> uint (biWidth (outInfoHeader out)) = 1
             \<and> uint (biHeight (outInfoHeader out)) = 1
             \<and> uint (biSizeImage (outInfoHeader out)) = (((1 :: int) * 3 + 3) AND NOT 3) * 1
             \<and> bfSize (outFileHeader out) = 54 + biSizeImage (outInfoHeader out)
             \<and> (uint (54 :: u32) + (((1 :: int) * 3 + 3) AND NOT 3) * 1 < 4294967296
                \<longrightarrow> uint (bfSize (outFileHeader out))
                      = uint (54 :: u32) + (((1 :: int) * 3 + 3) AND NOT 3) * 1)
             \<and> bfType (outFileHeader out) = 0x4D42
             \<and> bfReserved1 (outFileHeader out) = 0
             \<and> bfReserved2 (outFileHeader out) = 0
             \<and> bfOffBits (outFileHeader out) = 54
             \<and> biSize (outInfoHeader out) = 40
             \<and> biPlanes (outInfoHeader out) = 1
             \<and> biBitCount (outInfoHeader out) = 24
             \<and> biCompression (outInfoHeader out) = 0
             \<and> biXPelsPerMeter (outInfoHeader out) = 0
             \<and> biYPelsPerMeter (outInfoHeader out) = 0
             \<and> biClrUsed (outInfoHeader out) = 0
             \<and> biClrImportant (outInfoHeader out) = 0)"
    by simp
  from e h c x show ?thesis by (intro conjI)
qed

section \<open>Quantization with a bit depth of zero\<close>

text \<open>
  C4, as the code has it. \<^verbatim>\<open>quantizePixelData\<close> has no check of its bit depth. With
  \<open>quantizationBits = 0\<close> it computes \<open>levels - 1 = 0\<close> and evaluates \<open>255 / 0\<close> before it
  touches any pixel: for every buffer and all dimensions the run ends in the division by
  zero, and never in \<open>InvalidParameterError\<close>.
\<close>

theorem quantize_bits_zero_divides_by_zero:
  "quantizePixelData pixelData bytesPerPixel width height rowSize 0 = Inl DivisionByZero"
  by (simp add: quantizePixelData_def)

text \<open>
  C4 as stated fails: on a one-pixel 24-bit buffer (one row of four bytes) a bit depth of
  zero does not give \<open>InvalidParameterError\<close>; the run ends in the division by zero.
\<close>

theorem quantize_bits_zero_counterexample:
  "quantizePixelData [10, 20, 30, 0] 3 1 1 4 0 \<noteq> Inl InvalidParameterError
   \<and> quantizePixelData [10, 20, 30, 0] 3 1 1 4 0 = Inl DivisionByZero"
  by (simp add: quantizePixelData_def)

end
